theory Spec2Isabelle
  imports Main
begin

section \<open>Bullpen usage table: data model\<close>

text \<open>
  The program keeps, for every tracked pitcher, a timeline: a Python list whose cells are
  either an \<^verbatim>\<open>int\<close> (pitches thrown) or the string \<^verbatim>\<open>NO_PITCHES = "-"\<close>.
  A cell is therefore a tagged value; \<^verbatim>\<open>type(c) is int\<close> is the test for the first
  constructor.
\<close>

datatype cell = IntCell int | StrCell string

definition NO_PITCHES :: cell where
  "NO_PITCHES = StrCell ''-''"

text \<open>Every \<^verbatim>\<open>raise\<close> of the source is a value; \<^verbatim>\<open>Exception(msg)\<close> keeps its message.\<close>

datatype error = Exception string | KeyError | ValueError

type_synonym pitcher = int

section \<open>Trailing sums: \<^verbatim>\<open>sum_recents\<close>\<close>

text \<open>
  The \<^verbatim>\<open>while i < len(pitch_counts)\<close> loop of \<^verbatim>\<open>sum_recents\<close>, with the running
  total \<^verbatim>\<open>pitches\<close> as accumulator. The index is a natural number: the loop is only
  entered with \<^verbatim>\<open>i = len(pitch_counts) - n_days\<close> after both guards have passed,
  which makes it non-negative.
\<close>

function sum_loop :: "cell list \<Rightarrow> nat \<Rightarrow> int \<Rightarrow> int" where
  "sum_loop pitch_counts i pitches =
     (if i < length pitch_counts
      then sum_loop pitch_counts (i + 1)
             (case pitch_counts ! i of IntCell v \<Rightarrow> pitches + v | StrCell _ \<Rightarrow> pitches)
      else pitches)"
  by pat_completeness auto
termination
  by (relation "measure (\<lambda>(pitch_counts, i, pitches). length pitch_counts - i)") auto

declare sum_loop.simps [simp del]

definition sum_recents :: "cell list \<Rightarrow> int \<Rightarrow> error + int" where
  "sum_recents pitch_counts n_days =
     (if n_days < 1 then Inl (Exception ''n_days must be greater than zero'')
      else if n_days > int (length pitch_counts)
      then Inl (Exception ''Cannot sum more games than available in player data pull'')
      else Inr (sum_loop pitch_counts (nat (int (length pitch_counts) - n_days)) 0))"

text \<open>The integer value a cell contributes to a sum, and the replacement of sentinels by 0.\<close>

fun cell_value :: "cell \<Rightarrow> int" where
  "cell_value (IntCell v) = v"
| "cell_value (StrCell _) = 0"

fun zero_fill :: "cell \<Rightarrow> cell" where
  "zero_fill (IntCell v) = IntCell v"
| "zero_fill (StrCell _) = IntCell 0"

definition is_int :: "cell \<Rightarrow> bool" where
  "is_int c = (case c of IntCell _ \<Rightarrow> True | StrCell _ \<Rightarrow> False)"

section \<open>Dictionaries\<close>

text \<open>
  A Python \<^verbatim>\<open>dict\<close> iterates in insertion order and the program depends on that order
  (games oldest to newest, pitchers in sorted order), so a dictionary is an association
  list whose keys are distinct. \<^verbatim>\<open>d[k] = v\<close> overwrites the entry of an existing key
  in place and appends a new key at the end; \<^verbatim>\<open>d[k]\<close> raises \<^verbatim>\<open>KeyError\<close> on a
  missing key.
\<close>

type_synonym ('k, 'v) dict = "('k \<times> 'v) list"

definition dict_keys :: "('k, 'v) dict \<Rightarrow> 'k list" where
  "dict_keys d = map fst d"

fun dict_set :: "('k, 'v) dict \<Rightarrow> 'k \<Rightarrow> 'v \<Rightarrow> ('k, 'v) dict" where
  "dict_set [] k v = [(k, v)]"
| "dict_set ((k', v') # d) k v =
     (if k' = k then (k, v) # d else (k', v') # dict_set d k v)"

fun dict_get :: "('k, 'v) dict \<Rightarrow> 'k \<Rightarrow> error + 'v" where
  "dict_get [] k = Inl KeyError"
| "dict_get ((k', v') # d) k = (if k' = k then Inr v' else dict_get d k)"

text \<open>
  A comprehension (or the key computation of \<^verbatim>\<open>sorted\<close>) that evaluates \<open>f\<close> on every
  element in order and stops at the first one that raises.
\<close>

fun map_err :: "('a \<Rightarrow> error + 'b) \<Rightarrow> 'a list \<Rightarrow> error + 'b list" where
  "map_err f [] = Inr []"
| "map_err f (x # xs) =
     (case f x of
        Inl e \<Rightarrow> Inl e
      | Inr y \<Rightarrow> (case map_err f xs of Inl e \<Rightarrow> Inl e | Inr ys \<Rightarrow> Inr (y # ys)))"

section \<open>The schedule filter: \<^verbatim>\<open>get_games\<close>\<close>

text \<open>
  One entry of the list returned by \<^verbatim>\<open>statsapi.schedule\<close>, with the four fields
  \<^verbatim>\<open>get_games\<close> reads. The call itself is outside the program; the model takes the
  fetched schedule as its input.
\<close>

record schedule_entry =
  status :: string
  game_id :: int
  game_date :: string
  game_num :: int

type_synonym games = "(int, string \<times> int) dict"

definition INCLUDE_CURRENT :: bool where
  "INCLUDE_CURRENT = True"

text \<open>
  The loop of \<^verbatim>\<open>get_games\<close> with the value of the global flag as a parameter.
  \<^verbatim>\<open>INCLUDE_CURRENT is True\<close> is the flag itself, the flag being a \<^verbatim>\<open>bool\<close>.
\<close>

fun get_games_loop :: "bool \<Rightarrow> schedule_entry list \<Rightarrow> games \<Rightarrow> games" where
  "get_games_loop include_current [] games = games"
| "get_games_loop include_current (game # schedule) games =
     get_games_loop include_current schedule
       (if status game = ''Final'' \<or> include_current
        then dict_set games (game_id game) (game_date game, game_num game)
        else games)"

definition get_games :: "schedule_entry list \<Rightarrow> games" where
  "get_games schedule = get_games_loop INCLUDE_CURRENT schedule []"

section \<open>Sorting by starts: \<^verbatim>\<open>sort_pitcher_table\<close>\<close>

type_synonym pitcher_games = "(pitcher, cell list) dict"
type_synonym pitcher_starts = "(pitcher, int) dict"

text \<open>
  \<^verbatim>\<open>sorted(xs, key=f)\<close> computes the key of every element first, then sorts the
  elements by key, stably and ascending: \<open>py_sorted keys xs\<close> is the sorted list once
  the keys are known.
\<close>

definition py_sorted :: "int list \<Rightarrow> 'a list \<Rightarrow> 'a list" where
  "py_sorted keys xs = map snd (sort_key fst (zip keys xs))"

text \<open>The \<^verbatim>\<open>for pitcher in pitchers_sorted\<close> loop, filling the two output dictionaries.\<close>

fun sort_fill ::
  "pitcher_games \<Rightarrow> pitcher_starts \<Rightarrow> pitcher list \<Rightarrow> pitcher_games \<Rightarrow> pitcher_starts
     \<Rightarrow> error + (pitcher_games \<times> pitcher_starts)" where
  "sort_fill pitcher_games pitcher_starts [] pitcher_games_sorted pitcher_starts_sorted =
     Inr (pitcher_games_sorted, pitcher_starts_sorted)"
| "sort_fill pitcher_games pitcher_starts (pitcher # rest) pitcher_games_sorted
     pitcher_starts_sorted =
     (case dict_get pitcher_games pitcher of
        Inl e \<Rightarrow> Inl e
      | Inr timeline \<Rightarrow>
          (case dict_get pitcher_starts pitcher of
             Inl e \<Rightarrow> Inl e
           | Inr starts \<Rightarrow>
               sort_fill pitcher_games pitcher_starts rest
                 (dict_set pitcher_games_sorted pitcher timeline)
                 (dict_set pitcher_starts_sorted pitcher starts)))"

definition sort_pitcher_table ::
  "pitcher_games \<Rightarrow> pitcher_starts \<Rightarrow> error + (pitcher_games \<times> pitcher_starts)" where
  "sort_pitcher_table pitcher_games pitcher_starts =
     (case map_err (dict_get pitcher_starts) (dict_keys pitcher_games) of
        Inl e \<Rightarrow> Inl e
      | Inr keys \<Rightarrow>
          sort_fill pitcher_games pitcher_starts
            (py_sorted keys (dict_keys pitcher_games)) [] [])"

section \<open>Timelines and start counts: \<^verbatim>\<open>build_pitcher_table\<close>\<close>

text \<open>
  \<^verbatim>\<open>games_pitches\<close> maps a game to the list of \<^verbatim>\<open>(pitcher, n_pitches)\<close> tuples of
  the team's pitchers in that game, in box-score order.
\<close>

type_synonym games_pitches = "(int, (pitcher \<times> int) list) dict"

text \<open>The first loop: an empty timeline and a start count of 0 for every pitcher.\<close>

fun build_init ::
  "pitcher list \<Rightarrow> pitcher_games \<Rightarrow> pitcher_starts \<Rightarrow> pitcher_games \<times> pitcher_starts" where
  "build_init [] pitcher_games pitcher_starts = (pitcher_games, pitcher_starts)"
| "build_init (pitcher # pitchers) pitcher_games pitcher_starts =
     build_init pitchers (dict_set pitcher_games pitcher []) (dict_set pitcher_starts pitcher 0)"

text \<open>
  The loop over the items of one game; \<open>nth'\<close> counts every item, tracked or not.
  \<^verbatim>\<open>pitcher_games[pitcher].append(np)\<close> reads the timeline (the key is present, by the
  test before it) and extends it in place; \<^verbatim>\<open>pitcher_starts[pitcher] += 1\<close> reads and
  writes the start count and raises \<^verbatim>\<open>KeyError\<close> on a missing key.
\<close>

fun build_items ::
  "(pitcher \<times> int) list \<Rightarrow> nat \<Rightarrow> pitcher_games \<Rightarrow> pitcher_starts
     \<Rightarrow> error + (pitcher_games \<times> pitcher_starts)" where
  "build_items [] nth' pitcher_games pitcher_starts = Inr (pitcher_games, pitcher_starts)"
| "build_items ((pitcher, np) # items) nth' pitcher_games pitcher_starts =
     (if pitcher \<in> set (dict_keys pitcher_games)
      then (case dict_get pitcher_games pitcher of
              Inl e \<Rightarrow> Inl e
            | Inr timeline \<Rightarrow>
                (let pitcher_games' = dict_set pitcher_games pitcher (timeline @ [IntCell np])
                 in if nth' = 0
                    then (case dict_get pitcher_starts pitcher of
                            Inl e \<Rightarrow> Inl e
                          | Inr starts \<Rightarrow>
                              build_items items (nth' + 1) pitcher_games'
                                (dict_set pitcher_starts pitcher (starts + 1)))
                    else build_items items (nth' + 1) pitcher_games' pitcher_starts))
      else build_items items (nth' + 1) pitcher_games pitcher_starts)"

text \<open>
  The second inner loop: every pitcher whose timeline still has \<open>counter\<close> entries gets
  \<^verbatim>\<open>NO_PITCHES\<close> appended.
\<close>

definition record_absent :: "nat \<Rightarrow> pitcher_games \<Rightarrow> pitcher_games" where
  "record_absent counter pitcher_games =
     map (\<lambda>(pitcher, timeline).
            (pitcher, if length timeline = counter then timeline @ [NO_PITCHES] else timeline))
       pitcher_games"

text \<open>The loop over the games, oldest first, with the game counter.\<close>

fun build_games ::
  "games_pitches \<Rightarrow> nat \<Rightarrow> pitcher_games \<Rightarrow> pitcher_starts
     \<Rightarrow> error + (pitcher_games \<times> pitcher_starts)" where
  "build_games [] counter pitcher_games pitcher_starts = Inr (pitcher_games, pitcher_starts)"
| "build_games ((game, items) # games_pitches) counter pitcher_games pitcher_starts =
     (case build_items items 0 pitcher_games pitcher_starts of
        Inl e \<Rightarrow> Inl e
      | Inr (pitcher_games', pitcher_starts') \<Rightarrow>
          build_games games_pitches (counter + 1)
            (record_absent counter pitcher_games') pitcher_starts')"

text \<open>The table before it is sorted: the state when the loop over the games ends.\<close>

definition build_unsorted ::
  "pitcher list \<Rightarrow> games_pitches \<Rightarrow> error + (pitcher_games \<times> pitcher_starts)" where
  "build_unsorted pitchers games_pitches =
     (case build_init pitchers [] [] of
        (pitcher_games, pitcher_starts) \<Rightarrow>
          build_games games_pitches 0 pitcher_games pitcher_starts)"

definition build_pitcher_table ::
  "pitcher list \<Rightarrow> games_pitches \<Rightarrow> error + (pitcher_games \<times> pitcher_starts)" where
  "build_pitcher_table pitchers games_pitches =
     (case build_unsorted pitchers games_pitches of
        Inl e \<Rightarrow> Inl e
      | Inr (pitcher_games, pitcher_starts) \<Rightarrow> sort_pitcher_table pitcher_games pitcher_starts)"

section \<open>Box scores: \<^verbatim>\<open>get_pitch_counts\<close>\<close>

text \<open>
  A row of the pitcher table of \<^verbatim>\<open>statsapi.boxscore_data\<close> with the two fields the
  program reads (\<open>row_p\<close> is the field \<^verbatim>\<open>'p'\<close>, the pitch count as a string), and the
  parts of a box score it reads: the team ids and the two pitcher tables. The call itself, \<^verbatim>\<open>int\<close> on a string and \<^verbatim>\<open>str\<close> on a game id are
  parameters.
\<close>

record box_row =
  personId :: int
  row_p :: string

record boxscore =
  away_id :: int
  home_id :: int
  awayPitchers :: "box_row list"
  homePitchers :: "box_row list"

text \<open>
  The loop over the rows of one game: a row whose \<^verbatim>\<open>personId\<close> is 0 is skipped, the
  others are kept in order with their pitch count converted by \<^verbatim>\<open>int\<close>.
\<close>

fun box_items :: "(string \<Rightarrow> error + int) \<Rightarrow> box_row list \<Rightarrow> error + (pitcher \<times> int) list" where
  "box_items py_int [] = Inr []"
| "box_items py_int (pitcher # box_pitchers) =
     (if personId pitcher \<noteq> 0
      then (case py_int (row_p pitcher) of
              Inl e \<Rightarrow> Inl e
            | Inr n_pitches \<Rightarrow>
                (case box_items py_int box_pitchers of
                   Inl e \<Rightarrow> Inl e
                 | Inr items \<Rightarrow> Inr ((personId pitcher, n_pitches) # items)))
      else box_items py_int box_pitchers)"

text \<open>The choice of the away or home pitcher table, or the \<^verbatim>\<open>raise\<close>.\<close>

definition team_pitchers :: "(int \<Rightarrow> string) \<Rightarrow> int \<Rightarrow> int \<Rightarrow> boxscore \<Rightarrow> error + box_row list" where
  "team_pitchers str team_id game box =
     (if away_id box = team_id then Inr (awayPitchers box)
      else if home_id box = team_id then Inr (homePitchers box)
      else Inl (Exception (''Team ID not found in game '' @ str game)))"

fun get_pitch_counts_loop ::
  "(int \<Rightarrow> error + boxscore) \<Rightarrow> (string \<Rightarrow> error + int) \<Rightarrow> (int \<Rightarrow> string)
     \<Rightarrow> int \<Rightarrow> int list \<Rightarrow> games_pitches \<Rightarrow> error + games_pitches" where
  "get_pitch_counts_loop boxscore_data py_int str team_id [] games_pitches = Inr games_pitches"
| "get_pitch_counts_loop boxscore_data py_int str team_id (game # games) games_pitches =
     (case boxscore_data game of
        Inl e \<Rightarrow> Inl e
      | Inr box \<Rightarrow>
          (case team_pitchers str team_id game box of
             Inl e \<Rightarrow> Inl e
           | Inr box_pitchers \<Rightarrow>
               (case box_items py_int box_pitchers of
                  Inl e \<Rightarrow> Inl e
                | Inr items \<Rightarrow>
                    get_pitch_counts_loop boxscore_data py_int str team_id games
                      (dict_set games_pitches game items))))"

definition get_pitch_counts ::
  "(int \<Rightarrow> error + boxscore) \<Rightarrow> (string \<Rightarrow> error + int) \<Rightarrow> (int \<Rightarrow> string)
     \<Rightarrow> int \<Rightarrow> games \<Rightarrow> error + games_pitches" where
  "get_pitch_counts boxscore_data py_int str team_id games =
     get_pitch_counts_loop boxscore_data py_int str team_id (dict_keys games) []"

section \<open>Gap days: \<^verbatim>\<open>pad_dates\<close>\<close>

text \<open>
  \<^verbatim>\<open>datetime.strptime(s, "%Y-%m-%d")\<close> yields a \<^verbatim>\<open>datetime\<close> at midnight, which is
  determined by its day; the model represents it by its day number (the proleptic
  Gregorian ordinal), an integer. Then \<^verbatim>\<open>(b - a).days\<close> is \<open>b - a\<close>,
  \<^verbatim>\<open>a + timedelta(days=1)\<close> is \<open>a + 1\<close> and \<^verbatim>\<open>a == b\<close> is equality. The library
  functions \<^verbatim>\<open>strptime\<close> (which raises on a malformed string) and \<^verbatim>\<open>strftime\<close> are
  parameters of the functions that call them.
\<close>

type_synonym date = int

text \<open>\<^verbatim>\<open>xs.insert(n, x)\<close> for \<open>n \<ge> 0\<close>: an index beyond the end appends.\<close>

definition insert_at :: "nat \<Rightarrow> 'a \<Rightarrow> 'a list \<Rightarrow> 'a list" where
  "insert_at n x xs = take n xs @ x # drop n xs"

text \<open>
  The \<^verbatim>\<open>while i < (len(dates) - 1)\<close> loop. \<^verbatim>\<open>dates\<close> grows while the loop runs, and
  the bound is read again at every iteration, as in the source.
\<close>

function pad_loop ::
  "nat \<Rightarrow> date list \<Rightarrow> pitcher_games \<Rightarrow> date list \<times> pitcher_games" where
  "pad_loop i dates pitcher_dates =
     (if int i < int (length dates) - 1
      then (if dates ! (i + 1) - dates ! i > 1
            then pad_loop (i + 1) (insert_at (i + 1) (dates ! i + 1) dates)
                   (map (\<lambda>(pitcher, timeline). (pitcher, insert_at (i + 1) NO_PITCHES timeline))
                      pitcher_dates)
            else pad_loop (i + 1) dates pitcher_dates)
      else (dates, pitcher_dates))"
  by pat_completeness auto

text \<open>
  The loop ends on every input, sorted or not: the number of missing days between
  neighbours from index \<open>i\<close> on, plus the number of slots from \<open>i\<close> on, decreases.
\<close>

fun gap_days :: "date list \<Rightarrow> nat" where
  "gap_days (a # b # ds) = nat (b - a - 1) + gap_days (b # ds)"
| "gap_days ds = 0"

lemma drop_two:
  "Suc i < length xs \<Longrightarrow> drop i xs = xs ! i # xs ! Suc i # drop (Suc (Suc i)) xs"
  by (simp add: Cons_nth_drop_Suc)

lemma length_insert_at [simp]: "length (insert_at n x xs) = Suc (length xs)"
  by (simp add: insert_at_def)

lemma drop_insert_at: "n \<le> length xs \<Longrightarrow> drop n (insert_at n x xs) = x # drop n xs"
  by (simp add: insert_at_def)

lemma gap_days_drop_Suc: "gap_days (drop (Suc i) xs) \<le> gap_days (drop i xs)"
proof (cases "Suc i < length xs")
  case True
  then show ?thesis
    by (simp add: drop_two Cons_nth_drop_Suc [symmetric])
next
  case False
  then have "drop (Suc i) xs = []" by simp
  then show ?thesis by simp
qed

termination pad_loop
proof (relation
    "measure (\<lambda>(i, dates, pitcher_dates). gap_days (drop i dates) + (length dates - i))")
  show "wf (measure (\<lambda>(i, dates, pitcher_dates :: pitcher_games).
              gap_days (drop i dates) + (length dates - i)))"
    by simp
next
  fix i :: nat and dates :: "date list" and pitcher_dates :: pitcher_games
  assume lt: "int i < int (length dates) - 1" and gap: "1 < dates ! (i + 1) - dates ! i"
  from lt have s: "Suc i < length dates" by linarith
  have d1: "drop i dates = dates ! i # dates ! Suc i # drop (Suc (Suc i)) dates"
    using s by (rule drop_two)
  have d2: "drop (Suc i) (insert_at (Suc i) (dates ! i + 1) dates)
              = (dates ! i + 1) # dates ! Suc i # drop (Suc (Suc i)) dates"
    using s by (simp add: drop_insert_at Cons_nth_drop_Suc)
  have "gap_days (drop (Suc i) (insert_at (Suc i) (dates ! i + 1) dates))
          < gap_days (drop i dates)"
    using gap by (simp add: d1 d2)
  then show "((i + 1, insert_at (i + 1) (dates ! i + 1) dates,
               map (\<lambda>(pitcher, timeline). (pitcher, insert_at (i + 1) NO_PITCHES timeline))
                 pitcher_dates),
              i, dates, pitcher_dates)
             \<in> measure (\<lambda>(i, dates, pitcher_dates).
                   gap_days (drop i dates) + (length dates - i))"
    using s by simp
next
  fix i :: nat and dates :: "date list" and pitcher_dates :: pitcher_games
  assume lt: "int i < int (length dates) - 1"
  from lt have s: "Suc i < length dates" by linarith
  show "((i + 1, dates, pitcher_dates), i, dates, pitcher_dates)
          \<in> measure (\<lambda>(i, dates, pitcher_dates).
                gap_days (drop i dates) + (length dates - i))"
    using s gap_days_drop_Suc [of i dates] by simp
qed

declare pad_loop.simps [simp del]

text \<open>The date strings of the games, in the order of the dictionary.\<close>

definition game_dates :: "games \<Rightarrow> string list" where
  "game_dates games = map (\<lambda>(game, game_date, game_num). game_date) games"

definition pad_dates ::
  "(string \<Rightarrow> error + date) \<Rightarrow> games \<Rightarrow> pitcher_games
     \<Rightarrow> error + (date list \<times> pitcher_games)" where
  "pad_dates strptime games pitcher_games =
     (case map_err strptime (game_dates games) of
        Inl e \<Rightarrow> Inl e
      | Inr gamedays \<Rightarrow> Inr (pad_loop 0 gamedays pitcher_games))"

section \<open>Column labels: \<^verbatim>\<open>label_dates\<close>\<close>



text \<open>
  A fragment of the two library functions, enough to evaluate the program on the first
  ten days of June 2024: \<^verbatim>\<open>date(2024, 6, 1).toordinal()\<close> is 739038.
\<close>

definition june_2024 :: "(string \<times> date) list" where
  "june_2024 =
     [(''2024-06-01'', 739038), (''2024-06-02'', 739039), (''2024-06-03'', 739040),
      (''2024-06-04'', 739041), (''2024-06-05'', 739042), (''2024-06-06'', 739043),
      (''2024-06-07'', 739044), (''2024-06-08'', 739045), (''2024-06-09'', 739046),
      (''2024-06-10'', 739047)]"

definition strptime_june :: "string \<Rightarrow> error + date" where
  "strptime_june s = (case map_of june_2024 s of None \<Rightarrow> Inl ValueError | Some d \<Rightarrow> Inr d)"


section \<open>Vocabulary for the properties of \<^verbatim>\<open>build_pitcher_table\<close>\<close>

text \<open>
  The pitch counts of pitcher \<open>p\<close> among the items of one game, in order; whether \<open>p\<close> is
  the pitcher of the item at position 0; and the cell a game contributes to the timeline
  of a pitcher who is listed at most once: the pitch count, or the sentinel.
\<close>

definition pitches_of :: "pitcher \<Rightarrow> (pitcher \<times> int) list \<Rightarrow> cell list" where
  "pitches_of p items = map (\<lambda>(q, np). IntCell np) (filter (\<lambda>(q, np). q = p) items)"

definition starts_game :: "pitcher \<Rightarrow> (pitcher \<times> int) list \<Rightarrow> bool" where
  "starts_game p items = (case items of [] \<Rightarrow> False | (q, np) # _ \<Rightarrow> q = p)"

definition appearance_cell :: "pitcher \<Rightarrow> (pitcher \<times> int) list \<Rightarrow> cell" where
  "appearance_cell p items =
     (case filter (\<lambda>(q, np). q = p) items of [] \<Rightarrow> NO_PITCHES | (q, np) # _ \<Rightarrow> IntCell np)"

text \<open>
  The effect of one game, and of a list of games, on a single timeline, and the number of
  games a pitcher starts: the closed forms of the loops, used in the proofs below.
\<close>

definition game_cells :: "nat \<Rightarrow> pitcher \<Rightarrow> (pitcher \<times> int) list \<Rightarrow> cell list \<Rightarrow> cell list" where
  "game_cells counter p items timeline =
     (if length (timeline @ pitches_of p items) = counter
      then timeline @ pitches_of p items @ [NO_PITCHES]
      else timeline @ pitches_of p items)"

fun run_cells :: "games_pitches \<Rightarrow> nat \<Rightarrow> pitcher \<Rightarrow> cell list \<Rightarrow> cell list" where
  "run_cells [] counter p timeline = timeline"
| "run_cells ((game, items) # gs) counter p timeline =
     run_cells gs (counter + 1) p (game_cells counter p items timeline)"

definition starts_in :: "pitcher \<Rightarrow> games_pitches \<Rightarrow> int" where
  "starts_in p gs = int (length (filter (\<lambda>(game, items). starts_game p items) gs))"

section \<open>Closed forms of the padding and labelling loops\<close>

text \<open>
  What the loop of \<^verbatim>\<open>pad_dates\<close> makes of the calendar from the slot it stands on:
  a gap of more than one day after the first slot is closed by one inserted day, which is
  then the first slot. The recursion is the loop's, on the suffix instead of the index.
\<close>

function (sequential) fill :: "date list \<Rightarrow> date list" where
  "fill (a # b # ds) = (if b - a > 1 then a # fill ((a + 1) # b # ds) else a # fill (b # ds))"
| "fill ds = ds"
  by pat_completeness auto
termination
  by (relation "measure (\<lambda>ds. gap_days ds + length ds)") auto

lemma fill_short: "fill [] = []" "fill [a] = [a]"
  by simp_all

lemma fill_gap: "b - a > 1 \<Longrightarrow> fill (a # b # ds) = a # fill ((a + 1) # b # ds)"
  by simp

lemma fill_next: "\<not> b - a > 1 \<Longrightarrow> fill (a # b # ds) = a # fill (b # ds)"
  by simp

declare fill.simps [simp del]
declare fill_short [simp]

text \<open>
  The same loop on a timeline that is as long as the calendar, and the indices of the
  output calendar that hold an inserted day.
\<close>

function (sequential) fill_cells :: "date list \<Rightarrow> cell list \<Rightarrow> cell list" where
  "fill_cells (a # b # ds) (c # cs) =
     (if b - a > 1 then c # fill_cells ((a + 1) # b # ds) (NO_PITCHES # cs)
      else c # fill_cells (b # ds) cs)"
| "fill_cells ds cs = cs"
  by pat_completeness auto
termination
  by (relation "measure (\<lambda>(ds, cs). gap_days ds + length ds)") auto

lemma fill_cells_Nil: "fill_cells ds [] = []"
  by (cases ds rule: fill.cases) simp_all

lemma fill_cells_short: "fill_cells [] cs = cs" "fill_cells [a] cs = cs"
  by simp_all

lemma fill_cells_gap:
  "b - a > 1 \<Longrightarrow>
     fill_cells (a # b # ds) (c # cs) = c # fill_cells ((a + 1) # b # ds) (NO_PITCHES # cs)"
  by simp

lemma fill_cells_next:
  "\<not> b - a > 1 \<Longrightarrow> fill_cells (a # b # ds) (c # cs) = c # fill_cells (b # ds) cs"
  by simp

declare fill_cells.simps [simp del]
declare fill_cells_short [simp] fill_cells_Nil [simp]

function (sequential) gaps :: "date list \<Rightarrow> nat set" where
  "gaps (a # b # ds) =
     (if b - a > 1 then Suc ` insert 0 (gaps ((a + 1) # b # ds)) else Suc ` gaps (b # ds))"
| "gaps ds = {}"
  by pat_completeness auto
termination
  by (relation "measure (\<lambda>ds. gap_days ds + length ds)") auto

lemma gaps_short: "gaps [] = {}" "gaps [a] = {}"
  by simp_all

lemma gaps_gap: "b - a > 1 \<Longrightarrow> gaps (a # b # ds) = Suc ` insert 0 (gaps ((a + 1) # b # ds))"
  by simp

lemma gaps_next: "\<not> b - a > 1 \<Longrightarrow> gaps (a # b # ds) = Suc ` gaps (b # ds)"
  by simp

declare gaps.simps [simp del]
declare gaps_short [simp]


section \<open>Properties of \<^verbatim>\<open>sum_recents\<close>\<close>

lemma sum_loop_drop:
  "sum_loop pitch_counts i acc = acc + sum_list (map cell_value (drop i pitch_counts))"
proof (induction pitch_counts i acc rule: sum_loop.induct)
  case (1 pitch_counts i pitches)
  show ?case
  proof (cases "i < length pitch_counts")
    case True
    then have d: "drop i pitch_counts = pitch_counts ! i # drop (Suc i) pitch_counts"
      by (simp add: Cons_nth_drop_Suc)
    from True "1" show ?thesis
      by (subst sum_loop.simps) (cases "pitch_counts ! i"; simp add: d)
  next
    case False
    then show ?thesis
      by (subst sum_loop.simps) simp
  qed
qed

lemma cell_value_filter:
  "sum_list (map cell_value cs) = sum_list (map cell_value (filter is_int cs))"
proof (induction cs)
  case Nil
  show ?case by simp
next
  case (Cons c cs)
  then show ?case
    by (cases c) (simp_all add: is_int_def)
qed

lemma cell_value_zero_fill: "cell_value (zero_fill c) = cell_value c"
  by (cases c) simp_all

text \<open>
  C3. For a window size \<open>1 \<le> N \<le> length\<close>, \<^verbatim>\<open>sum_recents\<close> returns the sum of the
  integer cells among the last \<open>N\<close> entries (the window is exactly the last \<open>N\<close> cells,
  whatever they hold), and the result is the same after every sentinel has been replaced
  by the integer 0.
\<close>

theorem sum_recents_window:
  assumes "1 \<le> n" and "n \<le> int (length timeline)"
  shows "sum_recents timeline n =
           Inr (sum_list (map cell_value (filter is_int (drop (length timeline - nat n) timeline))))
         \<and> sum_recents (map zero_fill timeline) n = sum_recents timeline n"
proof -
  have idx: "nat (int (length timeline) - n) = length timeline - nat n"
    using assms by linarith
  have a: "sum_recents timeline n = Inr (sum_list (map cell_value (drop (length timeline - nat n) timeline)))"
    using assms by (simp add: sum_recents_def sum_loop_drop idx)
  have b: "sum_recents (map zero_fill timeline) n
             = Inr (sum_list (map cell_value (drop (length timeline - nat n) timeline)))"
    using assms
    by (simp add: sum_recents_def sum_loop_drop idx drop_map comp_def cell_value_zero_fill)
  have c: "sum_list (map cell_value (drop (length timeline - nat n) timeline))
             = sum_list (map cell_value (filter is_int (drop (length timeline - nat n) timeline)))"
    by (rule cell_value_filter)
  from a b show ?thesis
    by (simp only: c)
qed

theorem sum_recents_window_witness:
  "sum_recents [IntCell 20, StrCell ''-'', IntCell 15, IntCell 7] 3 = Inr 22
   \<and> sum_recents (map zero_fill [IntCell 20, StrCell ''-'', IntCell 15, IntCell 7]) 3
       = sum_recents [IntCell 20, StrCell ''-'', IntCell 15, IntCell 7] 3"
  using sum_recents_window [of 3 "[IntCell 20, StrCell ''-'', IntCell 15, IntCell 7]"]
  by (simp add: is_int_def)

text \<open>
  C4. A window size strictly greater than the length of the timeline makes
  \<^verbatim>\<open>sum_recents\<close> raise (the second guard), whatever the timeline holds; no truncated
  sum is returned.
\<close>

theorem sum_recents_window_too_large:
  assumes "n > int (length timeline)"
  shows "sum_recents timeline n
           = Inl (Exception ''Cannot sum more games than available in player data pull'')"
proof -
  from assms have "\<not> n < 1" by linarith
  with assms show ?thesis
    by (simp add: sum_recents_def)
qed

theorem sum_recents_window_too_large_witness:
  "sum_recents [IntCell 20, StrCell ''-''] 3
     = Inl (Exception ''Cannot sum more games than available in player data pull'')"
  using sum_recents_window_too_large [of "[IntCell 20, StrCell ''-'']" 3]
  by simp

text \<open>
  C10. A window size below 1 (zero or negative) makes \<^verbatim>\<open>sum_recents\<close> raise (the
  first guard) instead of returning 0.
\<close>

theorem sum_recents_window_not_positive:
  assumes "n < 1"
  shows "sum_recents timeline n = Inl (Exception ''n_days must be greater than zero'')"
  using assms by (simp add: sum_recents_def)

theorem sum_recents_window_not_positive_witness:
  "sum_recents [IntCell 20, StrCell ''-''] 0
     = Inl (Exception ''n_days must be greater than zero'')"
  using sum_recents_window_not_positive [of 0 "[IntCell 20, StrCell ''-'']"]
  by simp

section \<open>Properties of dictionaries\<close>

lemma dict_get_map_of:
  "dict_get d k = (case map_of d k of None \<Rightarrow> Inl KeyError | Some v \<Rightarrow> Inr v)"
  by (induction d) auto

lemma dict_set_new: "k \<notin> set (dict_keys d) \<Longrightarrow> dict_set d k v = d @ [(k, v)]"
  by (induction d) (auto simp: dict_keys_def)

lemma dict_keys_dict_set:
  "dict_keys (dict_set d k v) = (if k \<in> set (dict_keys d) then dict_keys d else dict_keys d @ [k])"
  by (induction d) (force simp: dict_keys_def)+

lemma map_of_keys: "k \<in> set (dict_keys d) \<Longrightarrow> \<exists>v. map_of d k = Some v"
  by (induction d) (auto simp: dict_keys_def)

lemma map_err_dict_get:
  "set ks \<subseteq> set (dict_keys d) \<Longrightarrow> map_err (dict_get d) ks = Inr (map (\<lambda>k. the (map_of d k)) ks)"
proof (induction ks)
  case Nil
  show ?case by simp
next
  case (Cons k ks)
  then obtain v where "map_of d k = Some v"
    using map_of_keys [of k d] by auto
  with Cons show ?case
    by (simp add: dict_get_map_of)
qed

section \<open>Properties of \<^verbatim>\<open>sort_pitcher_table\<close>\<close>

lemma map_snd_insort_key:
  assumes "\<forall>(a, b) \<in> set zs. a = f b"
  shows "map snd (insort_key fst (f x, x) zs) = insort_key f x (map snd zs)"
  using assms by (induction zs) auto

lemma py_sorted_sort_key: "py_sorted (map f xs) xs = sort_key f xs"
proof -
  have "map snd (sort_key fst (zip (map f xs) xs)) = sort_key f xs
        \<and> (\<forall>(a, b) \<in> set (sort_key fst (zip (map f xs) xs)). a = f b)"
  proof (induction xs)
    case Nil
    show ?case by simp
  next
    case (Cons x xs)
    then show ?case
      by (auto simp: map_snd_insort_key set_insort_key)
  qed
  then show ?thesis
    by (simp add: py_sorted_def)
qed

lemma sort_fill_closed:
  assumes "distinct ps" and "set ps \<subseteq> set (dict_keys pg)" and "set ps \<subseteq> set (dict_keys st)"
    and "set ps \<inter> set (dict_keys gs) = {}" and "set ps \<inter> set (dict_keys ss) = {}"
  shows "sort_fill pg st ps gs ss
           = Inr (gs @ map (\<lambda>p. (p, the (map_of pg p))) ps, ss @ map (\<lambda>p. (p, the (map_of st p))) ps)"
  using assms
proof (induction ps arbitrary: gs ss)
  case Nil
  show ?case by simp
next
  case (Cons p ps)
  obtain t where t: "map_of pg p = Some t"
    using Cons.prems map_of_keys [of p pg] by auto
  obtain s where s: "map_of st p = Some s"
    using Cons.prems map_of_keys [of p st] by auto
  have g: "dict_set gs p t = gs @ [(p, t)]" and h: "dict_set ss p s = ss @ [(p, s)]"
    using Cons.prems by (simp_all add: dict_set_new)
  have "sort_fill pg st ps (gs @ [(p, t)]) (ss @ [(p, s)])
          = Inr ((gs @ [(p, t)]) @ map (\<lambda>p. (p, the (map_of pg p))) ps,
                 (ss @ [(p, s)]) @ map (\<lambda>p. (p, the (map_of st p))) ps)"
    using Cons.prems by (intro Cons.IH) (auto simp: dict_keys_def)
  then show ?case
    by (simp add: dict_get_map_of t s g h)
qed

lemma sort_pitcher_table_closed:
  assumes "distinct (dict_keys pg)" and "set (dict_keys pg) \<subseteq> set (dict_keys st)"
  shows "sort_pitcher_table pg st
           = Inr (map (\<lambda>p. (p, the (map_of pg p))) (sort_key (\<lambda>p. the (map_of st p)) (dict_keys pg)),
                  map (\<lambda>p. (p, the (map_of st p))) (sort_key (\<lambda>p. the (map_of st p)) (dict_keys pg)))"
proof -
  let ?S = "sort_key (\<lambda>p. the (map_of st p)) (dict_keys pg)"
  have "sort_fill pg st ?S [] [] = Inr ([] @ map (\<lambda>p. (p, the (map_of pg p))) ?S, [] @ map (\<lambda>p. (p, the (map_of st p))) ?S)"
    using assms by (intro sort_fill_closed) (simp_all add: dict_keys_def)
  then show ?thesis
    using assms by (simp add: sort_pitcher_table_def map_err_dict_get py_sorted_sort_key)
qed


lemma dict_keys_map_key [simp]: "dict_keys (map (\<lambda>p. (p, g p)) ks) = ks"
  by (simp add: dict_keys_def comp_def)

lemma map_of_map_key: "p \<in> set ks \<Longrightarrow> map_of (map (\<lambda>p. (p, g p)) ks) p = Some (g p)"
  by (induction ks) auto

lemma dict_get_map_key: "p \<in> set ks \<Longrightarrow> dict_get (map (\<lambda>p. (p, g p)) ks) p = Inr (g p)"
  by (simp add: dict_get_map_of map_of_map_key)

lemma dict_get_the: "p \<in> set (dict_keys d) \<Longrightarrow> dict_get d p = Inr (the (map_of d p))"
  using map_of_keys [of p d] by (auto simp: dict_get_map_of)

text \<open>
  C6. For a dictionary of timelines and a dictionary that holds a start count for each of
  its pitchers, \<^verbatim>\<open>sort_pitcher_table\<close> returns the same pitchers with the same
  timelines and start counts, in ascending order of start count; pitchers with equal
  start counts keep their input order; a pitcher with zero starts comes before every
  pitcher with a positive start count; and sorting the result again returns it unchanged.
\<close>

theorem sort_pitcher_table_ordered:
  assumes "distinct (dict_keys pitcher_games)"
    and "set (dict_keys pitcher_games) \<subseteq> set (dict_keys pitcher_starts)"
  shows "\<exists>gs ss. sort_pitcher_table pitcher_games pitcher_starts = Inr (gs, ss)
           \<and> dict_keys ss = dict_keys gs
           \<and> distinct (dict_keys gs)
           \<and> set (dict_keys gs) = set (dict_keys pitcher_games)
           \<and> (\<forall>p \<in> set (dict_keys pitcher_games).
                 dict_get gs p = dict_get pitcher_games p
                 \<and> dict_get ss p = dict_get pitcher_starts p)
           \<and> sorted (map snd ss)
           \<and> (\<forall>k. filter (\<lambda>p. dict_get pitcher_starts p = Inr k) (dict_keys gs)
                     = filter (\<lambda>p. dict_get pitcher_starts p = Inr k) (dict_keys pitcher_games))
           \<and> (\<forall>i j. i < length ss \<and> j < length ss \<and> snd (ss ! i) = 0 \<and> 0 < snd (ss ! j)
                 \<longrightarrow> i < j)
           \<and> sort_pitcher_table gs ss = Inr (gs, ss)"
proof -
  let ?f = "\<lambda>p. the (map_of pitcher_starts p)"
  let ?K = "dict_keys pitcher_games"
  let ?S = "sort_key ?f ?K"
  let ?gs = "map (\<lambda>p. (p, the (map_of pitcher_games p))) ?S"
  let ?ss = "map (\<lambda>p. (p, ?f p)) ?S"
  have res: "sort_pitcher_table pitcher_games pitcher_starts = Inr (?gs, ?ss)"
    using assms by (rule sort_pitcher_table_closed)
  have setS: "set ?S = set ?K" by simp
  have distS: "distinct ?S" using assms(1) by simp
  have vals: "\<forall>p \<in> set ?K. dict_get ?gs p = dict_get pitcher_games p
                \<and> dict_get ?ss p = dict_get pitcher_starts p"
  proof
    fix p assume p: "p \<in> set ?K"
    then have "p \<in> set ?S" by simp
    then have "dict_get ?gs p = Inr (the (map_of pitcher_games p))"
      and "dict_get ?ss p = Inr (?f p)"
      by (rule dict_get_map_key)+
    moreover have "dict_get pitcher_games p = Inr (the (map_of pitcher_games p))"
      using p by (rule dict_get_the)
    moreover have "dict_get pitcher_starts p = Inr (?f p)"
      using p assms(2) by (intro dict_get_the) auto
    ultimately show "dict_get ?gs p = dict_get pitcher_games p
                       \<and> dict_get ?ss p = dict_get pitcher_starts p"
      by simp
  qed
  have snd_ss: "map snd ?ss = map ?f ?S" by (simp add: comp_def)
  have srt: "sorted (map snd ?ss)"
    unfolding snd_ss by (rule sorted_sort_key)
  have stable: "filter (\<lambda>p. dict_get pitcher_starts p = Inr k) ?S
                  = filter (\<lambda>p. dict_get pitcher_starts p = Inr k) ?K" for k
  proof -
    have eq: "(dict_get pitcher_starts p = Inr k) = (?f p = k)" if "p \<in> set ?K" for p
      using that assms(2) dict_get_the [of p pitcher_starts] by auto
    have "filter (\<lambda>p. dict_get pitcher_starts p = Inr k) ?S = filter (\<lambda>p. ?f p = k) ?S"
      by (rule filter_cong) (simp_all add: eq)
    also have "\<dots> = filter (\<lambda>p. ?f p = k) ?K"
      by (rule sort_key_stable)
    also have "\<dots> = filter (\<lambda>p. dict_get pitcher_starts p = Inr k) ?K"
      by (rule filter_cong) (simp_all add: eq)
    finally show ?thesis .
  qed
  have order: "i < j"
    if "i < length ?ss \<and> j < length ?ss \<and> snd (?ss ! i) = 0 \<and> 0 < snd (?ss ! j)" for i j
  proof (rule ccontr)
    assume "\<not> i < j"
    then have "j \<le> i" by simp
    moreover from that have li: "i < length ?ss" and lj: "j < length ?ss"
      by blast+
    ultimately have "map snd ?ss ! j \<le> map snd ?ss ! i"
      using srt by (intro sorted_nth_mono) (simp_all only: length_map)
    moreover have "map snd ?ss ! j = snd (?ss ! j)"
      using lj by (rule nth_map)
    moreover have "map snd ?ss ! i = snd (?ss ! i)"
      using li by (rule nth_map)
    ultimately have "snd (?ss ! j) \<le> snd (?ss ! i)"
      by (simp only:)
    with that show False
      by linarith
  qed
  have idem: "sort_pitcher_table ?gs ?ss = Inr (?gs, ?ss)"
  proof -
    let ?g = "\<lambda>p. the (map_of ?ss p)"
    have g: "?g p = ?f p" if "p \<in> set ?S" for p
      using that by (simp add: map_of_map_key)
    have h: "the (map_of ?gs p) = the (map_of pitcher_games p)" if "p \<in> set ?S" for p
      using that by (simp add: map_of_map_key)
    have mg: "map ?g ?S = map ?f ?S"
      by (rule map_cong) (simp_all add: g del: set_sort)
    have "sorted (map ?g ?S)"
      unfolding mg by (rule sorted_sort_key)
    then have s: "sort_key ?g ?S = ?S"
      by (rule sort_key_id_if_sorted)
    have m1: "map (\<lambda>p. (p, the (map_of ?gs p))) ?S = ?gs"
      by (rule map_cong) (simp_all add: h del: set_sort)
    have m2: "map (\<lambda>p. (p, ?g p)) ?S = ?ss"
      by (rule map_cong) (simp_all add: g del: set_sort)
    have "sort_pitcher_table ?gs ?ss
            = Inr (map (\<lambda>p. (p, the (map_of ?gs p))) (sort_key ?g (dict_keys ?gs)),
                   map (\<lambda>p. (p, ?g p)) (sort_key ?g (dict_keys ?gs)))"
      using distS by (intro sort_pitcher_table_closed) simp_all
    also have "dict_keys ?gs = ?S" by simp
    finally show ?thesis
      by (simp only: s m1 m2)
  qed
  have keys: "dict_keys ?ss = dict_keys ?gs" by simp
  have kd: "distinct (dict_keys ?gs)" using distS by simp
  have ks: "set (dict_keys ?gs) = set ?K" by simp
  have stable': "\<forall>k. filter (\<lambda>p. dict_get pitcher_starts p = Inr k) (dict_keys ?gs)
                  = filter (\<lambda>p. dict_get pitcher_starts p = Inr k) ?K"
    using stable by simp
  from res keys kd ks vals srt stable' order idem show ?thesis
    by blast
qed

theorem sort_pitcher_table_ordered_witness:
  "sort_pitcher_table
     [(11, [IntCell 30]), (12, [IntCell 95]), (13, [StrCell ''-'']), (14, [IntCell 88])]
     [(11, 0), (12, 1), (13, 0), (14, 1)]
   = Inr ([(11, [IntCell 30]), (13, [StrCell ''-'']), (12, [IntCell 95]), (14, [IntCell 88])],
          [(11, 0), (13, 0), (12, 1), (14, 1)])
   \<and> (\<exists>gs ss. sort_pitcher_table
         [(11, [IntCell 30]), (12, [IntCell 95]), (13, [StrCell ''-'']), (14, [IntCell 88])]
         [(11, 0), (12, 1), (13, 0), (14, 1)] = Inr (gs, ss)
         \<and> sorted (map snd ss)
         \<and> sort_pitcher_table gs ss = Inr (gs, ss))"
proof -
  have d: "distinct (dict_keys
      [(11::int, [IntCell 30]), (12, [IntCell 95]), (13, [StrCell ''-'']), (14, [IntCell 88])])"
    by (simp add: dict_keys_def)
  have s: "set (dict_keys
      [(11::int, [IntCell 30]), (12, [IntCell 95]), (13, [StrCell ''-'']), (14, [IntCell 88])])
      \<subseteq> set (dict_keys [(11::int, 0::int), (12, 1), (13, 0), (14, 1)])"
    by (simp add: dict_keys_def)
  have e: "sort_pitcher_table
     [(11, [IntCell 30]), (12, [IntCell 95]), (13, [StrCell ''-'']), (14, [IntCell 88])]
     [(11, 0), (12, 1), (13, 0), (14, 1)]
   = Inr ([(11, [IntCell 30]), (13, [StrCell ''-'']), (12, [IntCell 95]), (14, [IntCell 88])],
          [(11, 0), (13, 0), (12, 1), (14, 1)])"
    by (simp add: sort_pitcher_table_def dict_keys_def py_sorted_def)
  from sort_pitcher_table_ordered [OF d s] e show ?thesis
    by blast
qed

section \<open>Properties of \<^verbatim>\<open>build_pitcher_table\<close>\<close>

lemma dict_keys_map_value [simp]: "dict_keys (map (\<lambda>(p, v). (p, g p v)) d) = dict_keys d"
  by (induction d) (auto simp: dict_keys_def)

lemma dict_keys_mem: "(k, v) \<in> set d \<Longrightarrow> k \<in> set (dict_keys d)"
  by (force simp: dict_keys_def)

lemma dict_set_update:
  "distinct (dict_keys d) \<Longrightarrow> dict_get d k = Inr v
     \<Longrightarrow> dict_set d k (f v) = map (\<lambda>(p, t). (p, if p = k then f t else t)) d"
proof (induction d)
  case Nil
  then show ?case by simp
next
  case (Cons a d)
  obtain k' v' where a: "a = (k', v')" by (cases a)
  show ?case
  proof (cases "k' = k")
    case True
    with Cons.prems a have "v' = v" and "k \<notin> set (dict_keys d)"
      by (auto simp: dict_keys_def)
    then have "map (\<lambda>(p, t). (p, if p = k then f t else t)) d = d"
      by (induction d) (auto simp: dict_keys_def)
    with True a \<open>v' = v\<close> show ?thesis by simp
  next
    case False
    with Cons a show ?thesis by (simp add: dict_keys_def)
  qed
qed

text \<open>
  The loop over the games reads them left to right: its state after the games \<open>done\<close> is
  what it returns on \<open>done\<close> alone, and the remaining games continue from that state.
\<close>

lemma build_games_append:
  "build_games (done @ rest) counter pitcher_games pitcher_starts =
     (case build_games done counter pitcher_games pitcher_starts of
        Inl e \<Rightarrow> Inl e
      | Inr (pitcher_games', pitcher_starts') \<Rightarrow>
          build_games rest (counter + length done) pitcher_games' pitcher_starts')"
proof (induction "done" arbitrary: counter pitcher_games pitcher_starts)
  case Nil
  show ?case by simp
next
  case (Cons g gs)
  obtain game items where g: "g = (game, items)" by (cases g)
  show ?case
  proof (cases "build_items items 0 pitcher_games pitcher_starts")
    case (Inl e)
    then show ?thesis by (simp add: g)
  next
    case (Inr r)
    obtain pg st where r: "r = (pg, st)" by (cases r)
    from Inr show ?thesis
      by (simp add: g r Cons.IH split: sum.splits prod.splits)
  qed
qed

lemma build_items_closed:
  assumes "distinct (dict_keys pg)" and "dict_keys st = dict_keys pg"
  shows "build_items items n pg st
           = Inr (map (\<lambda>(p, t). (p, t @ pitches_of p items)) pg,
                  map (\<lambda>(p, s). (p, if n = 0 \<and> starts_game p items then s + 1 else s)) st)"
  using assms
proof (induction items arbitrary: n pg st)
  case Nil
  show ?case by (simp add: pitches_of_def starts_game_def)
next
  case (Cons item items)
  obtain q np where item: "item = (q, np)" by (cases item)
  have later: "map (\<lambda>(p, s). (p, if n + 1 = 0 \<and> starts_game p items then s + 1 else s)) st' = st'"
    for st' :: pitcher_starts
    by (induction st') auto
  show ?case
  proof (cases "q \<in> set (dict_keys pg)")
    case True
    then have tg: "dict_get pg q = Inr (the (map_of pg q))"
      by (rule dict_get_the)
    let ?pg = "map (\<lambda>(p, t). (p, if p = q then t @ [IntCell np] else t)) pg"
    have pg': "dict_set pg q (the (map_of pg q) @ [IntCell np]) = ?pg"
      using Cons.prems(1) tg by (rule dict_set_update)
    have cells: "map (\<lambda>(p, t). (p, t @ pitches_of p items)) ?pg
                   = map (\<lambda>(p, t). (p, t @ pitches_of p (item # items))) pg"
      by (auto simp: item pitches_of_def)
    have k: "distinct (dict_keys ?pg)"
      using Cons.prems(1) by simp
    show ?thesis
    proof (cases "n = 0")
      case n: True
      from True Cons.prems(2) have "q \<in> set (dict_keys st)" by simp
      then have ts: "dict_get st q = Inr (the (map_of st q))"
        by (rule dict_get_the)
      let ?st = "map (\<lambda>(p, s). (p, if p = q then s + 1 else s)) st"
      have st': "dict_set st q (the (map_of st q) + 1) = ?st"
        using Cons.prems ts by (intro dict_set_update [where f = "\<lambda>s. s + 1"]) simp_all
      have starts: "?st = map (\<lambda>(p, s). (p, if n = 0 \<and> starts_game p (item # items) then s + 1 else s)) st"
        using n by (auto simp: item starts_game_def)
      have "build_items (item # items) n pg st
              = build_items items (n + 1) (dict_set pg q (the (map_of pg q) @ [IntCell np]))
                  (dict_set st q (the (map_of st q) + 1))"
        using True n by (simp add: item tg ts)
      also have "\<dots> = build_items items (n + 1) ?pg ?st"
        by (simp only: pg' st')
      also have "\<dots> = Inr (map (\<lambda>(p, t). (p, t @ pitches_of p items)) ?pg,
                     map (\<lambda>(p, s). (p, if n + 1 = 0 \<and> starts_game p items then s + 1 else s)) ?st)"
        using k Cons.prems(2) by (intro Cons.IH) simp_all
      also have "\<dots> = Inr (map (\<lambda>(p, t). (p, t @ pitches_of p (item # items))) pg, ?st)"
        by (simp only: cells later)
      finally show ?thesis
        using starts by (simp only:)
    next
      case n: False
      have starts: "st = map (\<lambda>(p, s). (p, if n = 0 \<and> starts_game p (item # items) then s + 1 else s)) st"
        using n by (induction st) auto
      have "build_items (item # items) n pg st
              = build_items items (n + 1) (dict_set pg q (the (map_of pg q) @ [IntCell np])) st"
        using True n by (simp add: item tg)
      also have "\<dots> = build_items items (n + 1) ?pg st"
        by (simp only: pg')
      also have "\<dots> = Inr (map (\<lambda>(p, t). (p, t @ pitches_of p items)) ?pg,
                     map (\<lambda>(p, s). (p, if n + 1 = 0 \<and> starts_game p items then s + 1 else s)) st)"
        using k Cons.prems(2) by (intro Cons.IH) simp_all
      also have "\<dots> = Inr (map (\<lambda>(p, t). (p, t @ pitches_of p (item # items))) pg, st)"
        by (simp only: cells later)
      finally show ?thesis
        using starts by (simp only:)
    qed
  next
    case False
    have cells: "map (\<lambda>(p, t). (p, t @ pitches_of p items)) pg
                     = map (\<lambda>(p, t). (p, t @ pitches_of p (item # items))) pg"
      using False by (auto simp: item pitches_of_def dest: dict_keys_mem)
    have starts: "st = map (\<lambda>(p, s). (p, if n = 0 \<and> starts_game p (item # items) then s + 1 else s)) st"
    proof -
      have "map (\<lambda>(p, s). (p, if n = 0 \<and> starts_game p (item # items) then s + 1 else s)) st
              = map (\<lambda>x. x) st"
        using False Cons.prems(2) by (intro map_cong) (auto simp: item starts_game_def dest: dict_keys_mem)
      then show ?thesis by simp
    qed
    have "build_items (item # items) n pg st = build_items items (n + 1) pg st"
      using False by (simp add: item)
    also have "\<dots> = Inr (map (\<lambda>(p, t). (p, t @ pitches_of p items)) pg,
                     map (\<lambda>(p, s). (p, if n + 1 = 0 \<and> starts_game p items then s + 1 else s)) st)"
      using Cons.prems by (intro Cons.IH) simp_all
    also have "\<dots> = Inr (map (\<lambda>(p, t). (p, t @ pitches_of p (item # items))) pg, st)"
      by (simp only: cells later)
    finally show ?thesis
      using starts by (simp only:)
  qed
qed

lemma build_games_closed:
  assumes "distinct (dict_keys pg)" and "dict_keys st = dict_keys pg"
  shows "build_games gs c pg st
           = Inr (map (\<lambda>(p, t). (p, run_cells gs c p t)) pg,
                  map (\<lambda>(p, s). (p, s + starts_in p gs)) st)"
  using assms
proof (induction gs arbitrary: c pg st)
  case Nil
  show ?case by (simp add: starts_in_def)
next
  case (Cons g gs)
  obtain game items where g: "g = (game, items)" by (cases g)
  let ?pg = "map (\<lambda>(p, t). (p, game_cells c p items t)) pg"
  let ?st = "map (\<lambda>(p, s). (p, if (0::nat) = 0 \<and> starts_game p items then s + 1 else s)) st"
  have step: "build_items items 0 pg st = Inr (map (\<lambda>(p, t). (p, t @ pitches_of p items)) pg, ?st)"
    using Cons.prems by (rule build_items_closed)
  have pg': "record_absent c (map (\<lambda>(p, t). (p, t @ pitches_of p items)) pg) = ?pg"
    by (auto simp: record_absent_def game_cells_def)
  have cells: "map (\<lambda>(p, t). (p, run_cells gs (c + 1) p t)) ?pg
                   = map (\<lambda>(p, t). (p, run_cells (g # gs) c p t)) pg"
    by (induction pg) (auto simp: g)
  have starts: "map (\<lambda>(p, s). (p, s + starts_in p gs)) ?st
                   = map (\<lambda>(p, s). (p, s + starts_in p (g # gs))) st"
    by (induction st) (auto simp: g starts_in_def)
  have "build_games (g # gs) c pg st
          = build_games gs (c + 1) (record_absent c (map (\<lambda>(p, t). (p, t @ pitches_of p items)) pg)) ?st"
    by (simp add: g step)
  also have "\<dots> = build_games gs (c + 1) ?pg ?st"
    by (simp only: pg')
  also have "\<dots> = Inr (map (\<lambda>(p, t). (p, run_cells gs (c + 1) p t)) ?pg,
                 map (\<lambda>(p, s). (p, s + starts_in p gs)) ?st)"
    using Cons.prems by (intro Cons.IH) simp_all
  finally show ?case
    by (simp only: cells starts)
qed


lemma dict_set_const:
  "dict_set (map (\<lambda>p. (p, c)) ks) q c = map (\<lambda>p. (p, c)) (if q \<in> set ks then ks else ks @ [q])"
  by (induction ks) auto

lemma build_init_closed:
  "distinct ks \<Longrightarrow>
     \<exists>ks'. distinct ks' \<and> set ks' = set ks \<union> set pitchers
       \<and> build_init pitchers (map (\<lambda>p. (p, [])) ks) (map (\<lambda>p. (p, 0)) ks)
           = (map (\<lambda>p. (p, [])) ks', map (\<lambda>p. (p, 0)) ks')"
proof (induction pitchers arbitrary: ks)
  case Nil
  then show ?case by auto
next
  case (Cons q pitchers)
  let ?ks = "if q \<in> set ks then ks else ks @ [q]"
  from Cons.prems have "distinct ?ks" by simp
  from Cons.IH [OF this] obtain ks' where
    "distinct ks'" "set ks' = set ?ks \<union> set pitchers"
    "build_init pitchers (map (\<lambda>p. (p, [])) ?ks) (map (\<lambda>p. (p, 0)) ?ks)
       = (map (\<lambda>p. (p, [])) ks', map (\<lambda>p. (p, 0)) ks')"
    by blast
  then show ?case
    by (intro exI [of _ ks']) (auto simp: dict_set_const split: if_splits)
qed

lemma build_unsorted_closed:
  "\<exists>ks. distinct ks \<and> set ks = set pitchers
     \<and> build_unsorted pitchers gs
         = Inr (map (\<lambda>p. (p, run_cells gs 0 p [])) ks, map (\<lambda>p. (p, starts_in p gs)) ks)"
proof -
  from build_init_closed [of "[]" pitchers] obtain ks where
    ks: "distinct ks" "set ks = set pitchers"
    and init: "build_init pitchers [] [] = (map (\<lambda>p. (p, [])) ks, map (\<lambda>p. (p, 0)) ks)"
    by auto
  have "build_games gs 0 (map (\<lambda>p. (p, [])) ks) (map (\<lambda>p. (p, 0)) ks)
          = Inr (map (\<lambda>(p, t). (p, run_cells gs 0 p t)) (map (\<lambda>p. (p, [])) ks),
                 map (\<lambda>(p, s). (p, s + starts_in p gs)) (map (\<lambda>p. (p, 0)) ks))"
    using ks by (intro build_games_closed) simp_all
  then have "build_unsorted pitchers gs
          = Inr (map (\<lambda>p. (p, run_cells gs 0 p [])) ks, map (\<lambda>p. (p, starts_in p gs)) ks)"
    by (simp add: build_unsorted_def init comp_def)
  with ks show ?thesis by blast
qed

lemma build_pitcher_table_closed:
  "\<exists>ks. distinct ks \<and> set ks = set pitchers
     \<and> build_pitcher_table pitchers gs
         = Inr (map (\<lambda>p. (p, run_cells gs 0 p [])) ks, map (\<lambda>p. (p, starts_in p gs)) ks)"
proof -
  from build_unsorted_closed [of pitchers gs] obtain ks where
    ks: "distinct ks" "set ks = set pitchers"
    and un: "build_unsorted pitchers gs
         = Inr (map (\<lambda>p. (p, run_cells gs 0 p [])) ks, map (\<lambda>p. (p, starts_in p gs)) ks)"
    by blast
  let ?pg = "map (\<lambda>p. (p, run_cells gs 0 p [])) ks"
  let ?st = "map (\<lambda>p. (p, starts_in p gs)) ks"
  let ?S = "sort_key (\<lambda>p. the (map_of ?st p)) (dict_keys ?pg)"
  have S: "distinct ?S" "set ?S = set pitchers"
    using ks by simp_all
  have "sort_pitcher_table ?pg ?st
          = Inr (map (\<lambda>p. (p, the (map_of ?pg p))) ?S, map (\<lambda>p. (p, the (map_of ?st p))) ?S)"
    using ks by (intro sort_pitcher_table_closed) simp_all
  moreover have "map (\<lambda>p. (p, the (map_of ?pg p))) ?S = map (\<lambda>p. (p, run_cells gs 0 p [])) ?S"
    by (rule map_cong) (simp_all add: map_of_map_key)
  moreover have "map (\<lambda>p. (p, the (map_of ?st p))) ?S = map (\<lambda>p. (p, starts_in p gs)) ?S"
    by (rule map_cong) (simp_all add: map_of_map_key)
  ultimately have "build_pitcher_table pitchers gs
         = Inr (map (\<lambda>p. (p, run_cells gs 0 p [])) ?S, map (\<lambda>p. (p, starts_in p gs)) ?S)"
    by (simp only: build_pitcher_table_def un sum.case prod.case)
  with S show ?thesis by blast
qed

lemma is_int_pitches_of: "filter is_int (pitches_of p items) = pitches_of p items"
  by (induction items) (auto simp: pitches_of_def is_int_def)

lemma is_int_run_cells:
  "filter is_int (run_cells gs c p timeline)
     = filter is_int timeline @ concat (map (\<lambda>(game, items). pitches_of p items) gs)"
proof (induction gs arbitrary: c timeline)
  case Nil
  show ?case by simp
next
  case (Cons g gs)
  obtain game items where g: "g = (game, items)" by (cases g)
  have "filter is_int (game_cells c p items timeline)
          = filter is_int timeline @ pitches_of p items"
    by (simp add: game_cells_def is_int_pitches_of is_int_def NO_PITCHES_def)
  with Cons show ?case
    by (simp add: g)
qed

lemma once_per_game:
  "distinct (filter P (map fst items)) \<Longrightarrow> P p
     \<Longrightarrow> length (filter (\<lambda>(q, np). q = p) items) \<le> 1"
proof (induction items)
  case Nil
  show ?case by simp
next
  case (Cons item items)
  obtain q np where item: "item = (q, np)" by (cases item)
  show ?case
  proof (cases "q = p")
    case True
    with Cons.prems item have "p \<notin> set (map fst items)" by auto
    then have "filter (\<lambda>(q, np). q = p) items = []"
      by (force simp: filter_empty_conv)
    with True item show ?thesis by simp
  next
    case False
    with Cons item show ?thesis by (auto split: if_splits)
  qed
qed

lemma game_cells_once:
  assumes "length (filter (\<lambda>(q, np). q = p) items) \<le> 1" and "length timeline = c"
  shows "game_cells c p items timeline = timeline @ [appearance_cell p items]"
proof (cases "filter (\<lambda>(q, np). q = p) items")
  case Nil
  with assms show ?thesis
    by (simp add: game_cells_def pitches_of_def appearance_cell_def)
next
  case (Cons a as)
  with assms have "as = []" by simp
  with Cons assms show ?thesis
    by (cases a) (simp add: game_cells_def pitches_of_def appearance_cell_def)
qed

lemma run_cells_once:
  assumes "\<forall>(game, items) \<in> set gs. length (filter (\<lambda>(q, np). q = p) items) \<le> 1"
    and "length timeline = c"
  shows "run_cells gs c p timeline
           = timeline @ map (\<lambda>(game, items). appearance_cell p items) gs"
  using assms
proof (induction gs arbitrary: c timeline)
  case Nil
  show ?case by simp
next
  case (Cons g gs)
  obtain game items where g: "g = (game, items)" by (cases g)
  have "game_cells c p items timeline = timeline @ [appearance_cell p items]"
    using Cons.prems by (intro game_cells_once) (simp_all add: g)
  moreover have "run_cells gs (c + 1) p (timeline @ [appearance_cell p items])
          = (timeline @ [appearance_cell p items]) @ map (\<lambda>(game, items). appearance_cell p items) gs"
    using Cons.prems by (intro Cons.IH) simp_all
  ultimately show ?case
    by (simp add: g)
qed


text \<open>
  C5 as stated fails when a game lists a tracked pitcher twice: both pitch counts are
  appended, so after one game that timeline has two entries, while the timeline of a
  pitcher who did not appear has one.
\<close>

theorem build_pitcher_table_duplicate_appearance:
  "build_pitcher_table [1, 2] [(100, [(1, 10), (1, 5)])]
     = Inr ([(2, [StrCell ''-'']), (1, [IntCell 10, IntCell 5])], [(2, 0), (1, 1)])
   \<and> length [IntCell 10, IntCell 5] \<noteq> length [(100 :: int, [(1 :: pitcher, 10 :: int), (1, 5)])]
   \<and> length [IntCell 10, IntCell 5] \<noteq> length [StrCell ''-'']"
  by (simp add: build_pitcher_table_def build_unsorted_def sort_pitcher_table_def
      dict_keys_def py_sorted_def record_absent_def NO_PITCHES_def)

text \<open>
  C5, amended. Provided no game lists a tracked pitcher more than once: after the first
  \<open>k\<close> games have been processed (the state of the loop then is the table built from
  those \<open>k\<close> games), the timeline of every tracked pitcher has exactly \<open>k\<close> entries, the entry of each game being the pitch count if the pitcher appeared and the
  sentinel otherwise; the same holds of the table \<^verbatim>\<open>build_pitcher_table\<close> returns,
  with \<open>k\<close> the number of games.
\<close>

theorem build_pitcher_table_one_entry_per_game:
  assumes "\<forall>(game, items) \<in> set games_pitches.
             distinct (filter (\<lambda>q. q \<in> set pitchers) (map fst items))"
  shows "(\<forall>k \<le> length games_pitches.
            \<exists>pitcher_games pitcher_starts.
              build_unsorted pitchers (take k games_pitches) = Inr (pitcher_games, pitcher_starts)
              \<and> set (dict_keys pitcher_games) = set pitchers
              \<and> (\<forall>(p, timeline) \<in> set pitcher_games.
                    timeline = map (\<lambda>(game, items). appearance_cell p items) (take k games_pitches)
                    \<and> length timeline = k))
         \<and> (\<exists>pitcher_games pitcher_starts.
              build_pitcher_table pitchers games_pitches = Inr (pitcher_games, pitcher_starts)
              \<and> set (dict_keys pitcher_games) = set pitchers
              \<and> (\<forall>(p, timeline) \<in> set pitcher_games.
                    timeline = map (\<lambda>(game, items). appearance_cell p items) games_pitches
                    \<and> length timeline = length games_pitches))"
proof -
  have cells: "run_cells gs 0 p [] = map (\<lambda>(game, items). appearance_cell p items) gs"
    if "set gs \<subseteq> set games_pitches" and "p \<in> set pitchers" for gs p
  proof -
    have "\<forall>(game, items) \<in> set gs. length (filter (\<lambda>(q, np). q = p) items) \<le> 1"
    proof (clarify)
      fix game items assume "(game, items) \<in> set gs"
      with that(1) assms have "distinct (filter (\<lambda>q. q \<in> set pitchers) (map fst items))"
        by auto
      then show "length (filter (\<lambda>(q, np). q = p) items) \<le> 1"
        using that(2) by (rule once_per_game)
    qed
    then have "run_cells gs 0 p [] = [] @ map (\<lambda>(game, items). appearance_cell p items) gs"
      by (intro run_cells_once) simp_all
    then show ?thesis by simp
  qed
  have table: "set (dict_keys pg) = set pitchers
      \<and> (\<forall>(p, timeline) \<in> set pg.
            timeline = map (\<lambda>(game, items). appearance_cell p items) gs
            \<and> length timeline = length gs)"
    if "set gs \<subseteq> set games_pitches" and "distinct ks" and "set ks = set pitchers"
      and "pg = map (\<lambda>p. (p, run_cells gs 0 p [])) ks" for gs ks pg
    using that cells [OF that(1)] by auto
  have prefix: "\<exists>pitcher_games pitcher_starts.
              build_unsorted pitchers (take k games_pitches) = Inr (pitcher_games, pitcher_starts)
              \<and> set (dict_keys pitcher_games) = set pitchers
              \<and> (\<forall>(p, timeline) \<in> set pitcher_games.
                    timeline = map (\<lambda>(game, items). appearance_cell p items) (take k games_pitches)
                    \<and> length timeline = k)"
    if "k \<le> length games_pitches" for k
  proof -
    from build_unsorted_closed [of pitchers "take k games_pitches"] obtain ks where
      ks: "distinct ks" "set ks = set pitchers"
      and un: "build_unsorted pitchers (take k games_pitches)
         = Inr (map (\<lambda>p. (p, run_cells (take k games_pitches) 0 p [])) ks,
                map (\<lambda>p. (p, starts_in p (take k games_pitches))) ks)"
      by blast
    have "set (take k games_pitches) \<subseteq> set games_pitches"
      by (rule set_take_subset)
    from table [OF this ks refl] that un show ?thesis
      by (simp add: min_def)
  qed
  have final: "\<exists>pitcher_games pitcher_starts.
              build_pitcher_table pitchers games_pitches = Inr (pitcher_games, pitcher_starts)
              \<and> set (dict_keys pitcher_games) = set pitchers
              \<and> (\<forall>(p, timeline) \<in> set pitcher_games.
                    timeline = map (\<lambda>(game, items). appearance_cell p items) games_pitches
                    \<and> length timeline = length games_pitches)"
  proof -
    from build_pitcher_table_closed [of pitchers games_pitches] obtain ks where
      ks: "distinct ks" "set ks = set pitchers"
      and un: "build_pitcher_table pitchers games_pitches
         = Inr (map (\<lambda>p. (p, run_cells games_pitches 0 p [])) ks,
                map (\<lambda>p. (p, starts_in p games_pitches)) ks)"
      by blast
    from table [OF subset_refl ks refl] un show ?thesis
      by simp
  qed
  from prefix final show ?thesis
    by blast
qed

theorem build_pitcher_table_one_entry_per_game_witness:
  "build_unsorted [1, 2, 3] (take 1 [(100, [(1, 50), (2, 10)]), (101, [(3, 60), (2, 5), (9, 9)])])
     = Inr ([(1, [IntCell 50]), (2, [IntCell 10]), (3, [StrCell ''-''])], [(1, 1), (2, 0), (3, 0)])
   \<and> build_pitcher_table [1, 2, 3] [(100, [(1, 50), (2, 10)]), (101, [(3, 60), (2, 5), (9, 9)])]
     = Inr ([(2, [IntCell 10, IntCell 5]), (1, [IntCell 50, StrCell ''-'']),
             (3, [StrCell ''-'', IntCell 60])],
            [(2, 0), (1, 1), (3, 1)])
   \<and> (\<exists>pitcher_games pitcher_starts.
         build_pitcher_table [1, 2, 3] [(100, [(1, 50), (2, 10)]), (101, [(3, 60), (2, 5), (9, 9)])]
           = Inr (pitcher_games, pitcher_starts)
         \<and> (\<forall>(p, timeline) \<in> set pitcher_games. length timeline = 2))"
proof -
  have h: "\<forall>(game, items) \<in> set [(100 :: int, [(1 :: pitcher, 50 :: int), (2, 10)]),
                                    (101, [(3, 60), (2, 5), (9, 9)])].
             distinct (filter (\<lambda>q. q \<in> set [1, 2, 3]) (map fst items))"
    by simp
  have a: "build_unsorted [1, 2, 3]
      (take 1 [(100, [(1, 50), (2, 10)]), (101, [(3, 60), (2, 5), (9, 9)])])
     = Inr ([(1, [IntCell 50]), (2, [IntCell 10]), (3, [StrCell ''-''])], [(1, 1), (2, 0), (3, 0)])"
    by (simp add: build_unsorted_def dict_keys_def record_absent_def NO_PITCHES_def)
  have b: "build_pitcher_table [1, 2, 3] [(100, [(1, 50), (2, 10)]), (101, [(3, 60), (2, 5), (9, 9)])]
     = Inr ([(2, [IntCell 10, IntCell 5]), (1, [IntCell 50, StrCell ''-'']),
             (3, [StrCell ''-'', IntCell 60])],
            [(2, 0), (1, 1), (3, 1)])"
    by (simp add: build_pitcher_table_def build_unsorted_def sort_pitcher_table_def
        dict_keys_def py_sorted_def record_absent_def NO_PITCHES_def)
  from build_pitcher_table_one_entry_per_game [OF h] have
    "\<exists>pitcher_games pitcher_starts.
         build_pitcher_table [1, 2, 3] [(100, [(1, 50), (2, 10)]), (101, [(3, 60), (2, 5), (9, 9)])]
           = Inr (pitcher_games, pitcher_starts)
         \<and> (\<forall>(p, timeline) \<in> set pitcher_games. length timeline = 2)"
    by fastforce
  with a b show ?thesis
    by blast
qed

text \<open>
  The items \<^verbatim>\<open>get_pitch_counts\<close> hands over for a game are the rows with a non-zero
  \<^verbatim>\<open>personId\<close>, in box-score order: position 0 is the first such row.
\<close>

lemma box_items_pitchers:
  "box_items py_int rows = Inr items \<Longrightarrow>
     map fst items = filter (\<lambda>q. q \<noteq> 0) (map personId rows)"
proof (induction rows arbitrary: items)
  case Nil
  then show ?case by simp
next
  case (Cons row rows)
  then show ?case
    by (auto split: if_splits sum.splits)
qed

text \<open>
  C8. For a tracked pitcher, the start count returned by \<^verbatim>\<open>build_pitcher_table\<close> is
  the number of games whose item at position 0 is that pitcher's, and the integer cells
  of the returned timeline are exactly the pitch counts of the pitcher's appearances, in
  game order and in lineup order within a game.
\<close>

theorem build_pitcher_table_starts:
  assumes "p \<in> set pitchers"
  shows "\<exists>pitcher_games pitcher_starts timeline.
           build_pitcher_table pitchers games_pitches = Inr (pitcher_games, pitcher_starts)
           \<and> dict_get pitcher_starts p
               = Inr (int (length (filter (\<lambda>(game, items). starts_game p items) games_pitches)))
           \<and> dict_get pitcher_games p = Inr timeline
           \<and> filter is_int timeline
               = concat (map (\<lambda>(game, items). pitches_of p items) games_pitches)"
proof -
  from build_pitcher_table_closed [of pitchers games_pitches] obtain ks where
    ks: "distinct ks" "set ks = set pitchers"
    and un: "build_pitcher_table pitchers games_pitches
       = Inr (map (\<lambda>p. (p, run_cells games_pitches 0 p [])) ks,
              map (\<lambda>p. (p, starts_in p games_pitches)) ks)"
    by blast
  from assms ks have p: "p \<in> set ks" by simp
  have "dict_get (map (\<lambda>p. (p, starts_in p games_pitches)) ks) p
          = Inr (int (length (filter (\<lambda>(game, items). starts_game p items) games_pitches)))"
    using p by (simp add: dict_get_map_key starts_in_def)
  moreover have "dict_get (map (\<lambda>p. (p, run_cells games_pitches 0 p [])) ks) p
          = Inr (run_cells games_pitches 0 p [])"
    using p by (rule dict_get_map_key)
  moreover have "filter is_int (run_cells games_pitches 0 p [])
          = concat (map (\<lambda>(game, items). pitches_of p items) games_pitches)"
    by (simp add: is_int_run_cells)
  ultimately show ?thesis
    using un by blast
qed

theorem build_pitcher_table_starts_witness:
  "build_pitcher_table [1, 2, 3] [(100, [(1, 50), (2, 10)]), (101, [(3, 60), (2, 5), (9, 9)]),
       (102, [(1, 70)])]
     = Inr ([(2, [IntCell 10, IntCell 5, StrCell ''-'']),
             (3, [StrCell ''-'', IntCell 60, StrCell ''-'']),
             (1, [IntCell 50, StrCell ''-'', IntCell 70])],
            [(2, 0), (3, 1), (1, 2)])
   \<and> (\<exists>pitcher_games pitcher_starts timeline.
         build_pitcher_table [1, 2, 3] [(100, [(1, 50), (2, 10)]), (101, [(3, 60), (2, 5), (9, 9)]),
             (102, [(1, 70)])] = Inr (pitcher_games, pitcher_starts)
         \<and> dict_get pitcher_starts 1 = Inr 2
         \<and> dict_get pitcher_games 1 = Inr timeline
         \<and> filter is_int timeline = [IntCell 50, IntCell 70])"
proof -
  have h: "(1 :: pitcher) \<in> set [1, 2, 3]" by simp
  have b: "build_pitcher_table [1, 2, 3] [(100, [(1, 50), (2, 10)]), (101, [(3, 60), (2, 5), (9, 9)]),
       (102, [(1, 70)])]
     = Inr ([(2, [IntCell 10, IntCell 5, StrCell ''-'']),
             (3, [StrCell ''-'', IntCell 60, StrCell ''-'']),
             (1, [IntCell 50, StrCell ''-'', IntCell 70])],
            [(2, 0), (3, 1), (1, 2)])"
    by (simp add: build_pitcher_table_def build_unsorted_def sort_pitcher_table_def
        dict_keys_def py_sorted_def record_absent_def NO_PITCHES_def)
  from build_pitcher_table_starts [OF h, of "[(100, [(1, 50), (2, 10)]), (101, [(3, 60), (2, 5), (9, 9)]),
       (102, [(1, 70)])]"] have
    "\<exists>pitcher_games pitcher_starts timeline.
         build_pitcher_table [1, 2, 3] [(100, [(1, 50), (2, 10)]), (101, [(3, 60), (2, 5), (9, 9)]),
             (102, [(1, 70)])] = Inr (pitcher_games, pitcher_starts)
         \<and> dict_get pitcher_starts 1 = Inr 2
         \<and> dict_get pitcher_games 1 = Inr timeline
         \<and> filter is_int timeline = [IntCell 50, IntCell 70]"
    by (simp add: starts_game_def pitches_of_def)
  with b show ?thesis
    by blast
qed

section \<open>Properties of \<^verbatim>\<open>get_games\<close>\<close>

lemma get_games_loop_keys:
  "set (dict_keys (get_games_loop include_current schedule games))
     = set (dict_keys games)
       \<union> game_id ` {game \<in> set schedule. status game = ''Final'' \<or> include_current}"
proof (induction schedule arbitrary: games)
  case Nil
  show ?case by simp
next
  case (Cons game schedule)
  show ?case
    by (auto simp: Cons.IH dict_keys_dict_set)
qed

lemma get_games_keys: "set (dict_keys (get_games schedule)) = game_id ` set schedule"
  unfolding get_games_def get_games_loop_keys
  by (simp add: dict_keys_def INCLUDE_CURRENT_def)

text \<open>
  C9. With the flag set, as it is in the source, \<^verbatim>\<open>get_games\<close> returns every game of
  the schedule, whatever its status: the test \<^verbatim>\<open>status == 'Final' or INCLUDE_CURRENT\<close>
  never looks for a game in progress. A postponed game, neither final nor in progress, is
  returned.
\<close>

theorem get_games_keeps_postponed:
  "get_games [\<lparr>status = ''Postponed'', game_id = 5, game_date = ''2024-06-01'', game_num = 1\<rparr>]
     = [(5, (''2024-06-01'', 1))]"
  by (simp add: get_games_def INCLUDE_CURRENT_def)

section \<open>Properties of \<^verbatim>\<open>pad_dates\<close> and \<^verbatim>\<open>label_dates\<close>\<close>

lemma map_err_length: "map_err f xs = Inr ys \<Longrightarrow> length ys = length xs"
  by (induction xs arbitrary: ys) (auto split: sum.splits)



lemma pad_loop_fill:
  "i \<le> length dates \<Longrightarrow> fst (pad_loop i dates pd) = take i dates @ fill (drop i dates)"
proof (induction i dates pd rule: pad_loop.induct)
  case (1 i dates pd)
  show ?case
  proof (cases "int i < int (length dates) - 1")
    case False
    then have "length (drop i dates) \<le> 1" by simp
    then have "fill (drop i dates) = drop i dates"
      by (cases "drop i dates" rule: fill.cases) simp_all
    with False show ?thesis
      by (subst pad_loop.simps) simp
  next
    case True
    then have s: "Suc i < length dates" by linarith
    have d: "drop i dates = dates ! i # dates ! Suc i # drop (Suc (Suc i)) dates"
      using s by (rule drop_two)
    have t: "take (Suc i) xs = take i xs @ [xs ! i]" if "i < length xs" for xs :: "date list"
      using that by (rule take_Suc_conv_app_nth)
    show ?thesis
    proof (cases "dates ! (i + 1) - dates ! i > 1")
      case gap: True
      let ?dates = "insert_at (i + 1) (dates ! i + 1) dates"
      have "fst (pad_loop (i + 1) ?dates
                   (map (\<lambda>(pitcher, timeline). (pitcher, insert_at (i + 1) NO_PITCHES timeline)) pd))
              = take (i + 1) ?dates @ fill (drop (i + 1) ?dates)"
        using s by (intro "1.IH"(1) [OF True gap]) simp
      moreover have "take (i + 1) ?dates = take i dates @ [dates ! i]"
        using s by (simp add: insert_at_def t)
      moreover have "drop (i + 1) ?dates = (dates ! i + 1) # dates ! Suc i # drop (Suc (Suc i)) dates"
        using s by (simp add: drop_insert_at Cons_nth_drop_Suc)
      ultimately show ?thesis
        using True gap by (subst pad_loop.simps) (simp add: d fill_gap)
    next
      case gap: False
      have "fst (pad_loop (i + 1) dates pd) = take (i + 1) dates @ fill (drop (i + 1) dates)"
        using s by (intro "1.IH"(2) [OF True gap]) simp
      moreover have "take (i + 1) dates = take i dates @ [dates ! i]"
        using s by (simp add: t)
      moreover have "drop (i + 1) dates = dates ! Suc i # drop (Suc (Suc i)) dates"
        using s by (simp add: Cons_nth_drop_Suc)
      ultimately show ?thesis
        using True gap by (subst pad_loop.simps) (simp add: d fill_next)
    qed
  qed
qed

lemma fill_Cons: "\<exists>r. fill (a # ds) = a # r"
proof (cases ds)
  case Nil
  then show ?thesis by simp
next
  case (Cons b ds')
  then show ?thesis
    by (cases "b - a > 1") (simp_all add: fill_gap fill_next)
qed

lemma fill_dense:
  "sorted ds \<Longrightarrow> successively (\<lambda>a b. b = a \<or> b = a + 1) (fill ds)"
proof (induction ds rule: fill.induct)
  case (1 a b ds)
  show ?case
  proof (cases "b - a > 1")
    case True
    with "1.prems" have "sorted ((a + 1) # b # ds)" by auto
    from "1.IH"(1) [OF True this]
    have "successively (\<lambda>a b. b = a \<or> b = a + 1) (fill ((a + 1) # b # ds))" .
    moreover obtain r where "fill ((a + 1) # b # ds) = (a + 1) # r"
      using fill_Cons [of "a + 1" "b # ds"] by blast
    ultimately show ?thesis
      using True by (simp add: fill_gap)
  next
    case False
    with "1.prems" have "b = a \<or> b = a + 1" by auto
    moreover from "1.prems" have "sorted (b # ds)" by simp
    from "1.IH"(2) [OF False this]
    have "successively (\<lambda>a b. b = a \<or> b = a + 1) (fill (b # ds))" .
    moreover obtain r where "fill (b # ds) = b # r"
      using fill_Cons [of b ds] by blast
    ultimately show ?thesis
      using False by (simp add: fill_next)
  qed
qed simp_all




lemma gaps_not_0: "0 \<notin> gaps ds"
  by (cases ds rule: fill.cases) (auto simp: gaps.simps(1))

lemma nths_keep: "nths (x # xs) (- (Suc ` G)) = x # nths xs (- G)"
proof -
  have "{j. Suc j \<in> - (Suc ` G)} = - G" by auto
  then show ?thesis by (simp add: nths_Cons)
qed

lemma nths_skip: "0 \<notin> G \<Longrightarrow> nths (x # xs) (- G) = x # nths (x # xs) (- insert 0 G)"
proof -
  have "{j. Suc j \<in> - insert 0 G} = {j. Suc j \<in> - G}" by auto
  moreover assume "0 \<notin> G"
  ultimately show ?thesis by (simp add: nths_Cons)
qed

lemma pad_loop_cells:
  assumes "i \<le> length dates" and "\<forall>(p, t) \<in> set pd. length t = length dates"
  shows "snd (pad_loop i dates pd)
           = map (\<lambda>(p, t). (p, take i t @ fill_cells (drop i dates) (drop i t))) pd"
  using assms
proof (induction i dates pd rule: pad_loop.induct)
  case (1 i dates pd)
  show ?case
  proof (cases "int i < int (length dates) - 1")
    case False
    then have "length (drop i dates) \<le> 1" by simp
    then have "fill_cells (drop i dates) cs = cs" for cs
      by (cases "drop i dates" rule: fill.cases) simp_all
    then have "map (\<lambda>(p, t). (p, take i t @ fill_cells (drop i dates) (drop i t))) pd = pd"
      by (induction pd) auto
    with False show ?thesis
      by (subst pad_loop.simps) simp
  next
    case True
    then have s: "Suc i < length dates" by linarith
    have d: "drop i dates = dates ! i # dates ! Suc i # drop (Suc (Suc i)) dates"
      using s by (rule drop_two)
    show ?thesis
    proof (cases "dates ! (i + 1) - dates ! i > 1")
      case gap: True
      let ?dates = "insert_at (i + 1) (dates ! i + 1) dates"
      let ?ins = "insert_at (i + 1) NO_PITCHES"
      let ?pd = "map (\<lambda>(pitcher, timeline). (pitcher, ?ins timeline)) pd"
      have dd: "drop (Suc i) (insert_at (Suc i) (dates ! i + 1) dates)
                  = (dates ! i + 1) # dates ! Suc i # drop (Suc (Suc i)) dates"
        using s by (simp add: drop_insert_at Cons_nth_drop_Suc)
      have "snd (pad_loop (i + 1) ?dates ?pd)
              = map (\<lambda>(p, t). (p, take (i + 1) t @ fill_cells (drop (i + 1) ?dates) (drop (i + 1) t))) ?pd"
        using s "1.prems"(2) by (intro "1.IH"(1) [OF True gap]) auto
      also have "\<dots> = map (\<lambda>(p, t). (p, take i t @ fill_cells (drop i dates) (drop i t))) pd"
      proof -
        have "take (i + 1) (?ins t) @ fill_cells (drop (i + 1) ?dates) (drop (i + 1) (?ins t))
                = take i t @ fill_cells (drop i dates) (drop i t)"
          if "length t = length dates" for t
        proof -
          from that s have i: "i < length t" by simp
          have "take (i + 1) (?ins t) = take i t @ [t ! i]"
            using i by (simp add: insert_at_def take_Suc_conv_app_nth)
          moreover have "drop (i + 1) (?ins t) = NO_PITCHES # drop (Suc i) t"
            using i by (simp add: drop_insert_at)
          moreover have "drop i t = t ! i # drop (Suc i) t"
            using i by (simp add: Cons_nth_drop_Suc)
          ultimately show ?thesis
            using gap by (simp add: d dd fill_cells_gap)
        qed
        with "1.prems"(2) show ?thesis
          by (auto simp: comp_def)
      qed
      finally show ?thesis
        using True gap by (subst pad_loop.simps) simp
    next
      case gap: False
      have "snd (pad_loop (i + 1) dates pd)
              = map (\<lambda>(p, t). (p, take (i + 1) t @ fill_cells (drop (i + 1) dates) (drop (i + 1) t))) pd"
        using s "1.prems"(2) by (intro "1.IH"(2) [OF True gap]) auto
      also have "\<dots> = map (\<lambda>(p, t). (p, take i t @ fill_cells (drop i dates) (drop i t))) pd"
      proof -
        have "take (i + 1) t @ fill_cells (drop (i + 1) dates) (drop (i + 1) t)
                = take i t @ fill_cells (drop i dates) (drop i t)"
          if "length t = length dates" for t
        proof -
          from that s have i: "i < length t" by simp
          have "take (i + 1) t = take i t @ [t ! i]"
            using i by (simp add: take_Suc_conv_app_nth)
          moreover have "drop i t = t ! i # drop (Suc i) t"
            using i by (simp add: Cons_nth_drop_Suc)
          moreover have "drop (i + 1) dates = dates ! Suc i # drop (Suc (Suc i)) dates"
            using s by (simp add: Cons_nth_drop_Suc)
          ultimately show ?thesis
            using gap by (simp add: d fill_cells_next)
        qed
        with "1.prems"(2) show ?thesis
          by auto
      qed
      finally show ?thesis
        using True gap by (subst pad_loop.simps) simp
    qed
  qed
qed

lemma fill_gaps:
  "nths (fill ds) (- gaps ds) = ds
   \<and> gaps ds \<subseteq> {..<length (fill ds)}
   \<and> (\<forall>k \<in> gaps ds. 0 < k \<and> fill ds ! k = fill ds ! (k - 1) + 1)"
proof (induction ds rule: fill.induct)
  case (1 a b ds)
  show ?case
  proof (cases "b - a > 1")
    case True
    let ?G = "gaps ((a + 1) # b # ds)"
    obtain r where r: "fill ((a + 1) # b # ds) = (a + 1) # r"
      using fill_Cons [of "a + 1" "b # ds"] by blast
    from "1.IH"(1) [OF True] have
      n: "nths (fill ((a + 1) # b # ds)) (- ?G) = (a + 1) # b # ds"
      and sub: "?G \<subseteq> {..<length (fill ((a + 1) # b # ds))}"
      and step: "\<forall>k \<in> ?G. 0 < k \<and> fill ((a + 1) # b # ds) ! k = fill ((a + 1) # b # ds) ! (k - 1) + 1"
      by blast+
    have "nths ((a + 1) # r) (- insert 0 ?G) = b # ds"
      using n nths_skip [OF gaps_not_0, of "a + 1" r "(a + 1) # b # ds"] by (simp add: r)
    moreover have "nths (a # (a + 1) # r) (- (Suc ` insert 0 ?G))
                     = a # nths ((a + 1) # r) (- insert 0 ?G)"
      by (rule nths_keep)
    moreover have "fill (a # b # ds) = a # (a + 1) # r"
      using True by (simp add: fill_gap r)
    moreover have "gaps (a # b # ds) = Suc ` insert 0 ?G"
      using True by (rule gaps_gap)
    ultimately have "nths (fill (a # b # ds)) (- gaps (a # b # ds)) = a # b # ds"
      by (simp only:)
    moreover have "gaps (a # b # ds) \<subseteq> {..<length (fill (a # b # ds))}"
      using True sub by (auto simp: fill_gap gaps_gap r)
    moreover have "\<forall>k \<in> gaps (a # b # ds).
                     0 < k \<and> fill (a # b # ds) ! k = fill (a # b # ds) ! (k - 1) + 1"
    proof
      fix k assume "k \<in> gaps (a # b # ds)"
      then obtain j where k: "k = Suc j" and j: "j = 0 \<or> j \<in> ?G"
        using True by (auto simp: gaps_gap)
      have f: "fill (a # b # ds) = a # (a + 1) # r"
        using True by (simp add: fill_gap r)
      from j show "0 < k \<and> fill (a # b # ds) ! k = fill (a # b # ds) ! (k - 1) + 1"
      proof
        assume "j = 0"
        then show ?thesis by (simp add: k f)
      next
        assume "j \<in> ?G"
        with step have "0 < j" and "((a + 1) # r) ! j = ((a + 1) # r) ! (j - 1) + 1"
          by (auto simp: r)
        then show ?thesis
          by (cases j) (simp_all add: k f)
      qed
    qed
    ultimately show ?thesis by blast
  next
    case False
    let ?G = "gaps (b # ds)"
    from "1.IH"(2) [OF False] have
      n: "nths (fill (b # ds)) (- ?G) = b # ds"
      and sub: "?G \<subseteq> {..<length (fill (b # ds))}"
      and step: "\<forall>k \<in> ?G. 0 < k \<and> fill (b # ds) ! k = fill (b # ds) ! (k - 1) + 1"
      by blast+
    have "nths (fill (a # b # ds)) (- gaps (a # b # ds)) = a # b # ds"
      using False n by (simp add: fill_next gaps_next nths_keep)
    moreover have "gaps (a # b # ds) \<subseteq> {..<length (fill (a # b # ds))}"
      using False sub by (auto simp: fill_next gaps_next)
    moreover have "\<forall>k \<in> gaps (a # b # ds).
                     0 < k \<and> fill (a # b # ds) ! k = fill (a # b # ds) ! (k - 1) + 1"
    proof
      fix k assume "k \<in> gaps (a # b # ds)"
      then obtain j where k: "k = Suc j" and j: "j \<in> ?G"
        using False by (auto simp: gaps_next)
      have f: "fill (a # b # ds) = a # fill (b # ds)"
        using False by (simp add: fill_next)
      from j step have "0 < j" and "fill (b # ds) ! j = fill (b # ds) ! (j - 1) + 1"
        by auto
      then show "0 < k \<and> fill (a # b # ds) ! k = fill (a # b # ds) ! (k - 1) + 1"
        by (cases j) (simp_all add: k f)
    qed
    ultimately show ?thesis by blast
  qed
qed (simp_all add: nths_all)

lemma fill_cells_Cons: "\<exists>r. fill_cells ds (c # cs) = c # r"
proof (cases ds rule: fill.cases)
  case (1 a b ds')
  then show ?thesis
    by (cases "b - a > 1") (simp_all add: fill_cells_gap fill_cells_next)
qed simp_all

lemma fill_cells_gaps:
  "length cs = length ds \<Longrightarrow>
     nths (fill_cells ds cs) (- gaps ds) = cs
     \<and> length (fill_cells ds cs) = length (fill ds)
     \<and> (\<forall>k \<in> gaps ds. fill_cells ds cs ! k = NO_PITCHES)"
proof (induction ds arbitrary: cs rule: fill.induct)
  case (1 a b ds)
  then obtain c cs' where cs: "cs = c # cs'" and len: "length cs' = length (b # ds)"
    by (cases cs) auto
  show ?case
  proof (cases "b - a > 1")
    case True
    let ?G = "gaps ((a + 1) # b # ds)"
    let ?F = "fill_cells ((a + 1) # b # ds) (NO_PITCHES # cs')"
    obtain r where r: "?F = NO_PITCHES # r"
      using fill_cells_Cons [of "(a + 1) # b # ds" NO_PITCHES cs'] by blast
    have "length (NO_PITCHES # cs') = length ((a + 1) # b # ds)"
      using len by simp
    from "1.IH"(1) [OF True this] have
      n: "nths ?F (- ?G) = NO_PITCHES # cs'"
      and l: "length ?F = length (fill ((a + 1) # b # ds))"
      and sent: "\<forall>k \<in> ?G. ?F ! k = NO_PITCHES"
      by blast+
    have "nths (NO_PITCHES # r) (- insert 0 ?G) = cs'"
      using n nths_skip [OF gaps_not_0, of NO_PITCHES r "(a + 1) # b # ds"] by (simp add: r)
    moreover have "nths (c # NO_PITCHES # r) (- (Suc ` insert 0 ?G))
                     = c # nths (NO_PITCHES # r) (- insert 0 ?G)"
      by (rule nths_keep)
    moreover have "fill_cells (a # b # ds) cs = c # NO_PITCHES # r"
      using True by (simp add: cs fill_cells_gap r)
    moreover have "gaps (a # b # ds) = Suc ` insert 0 ?G"
      using True by (rule gaps_gap)
    ultimately have "nths (fill_cells (a # b # ds) cs) (- gaps (a # b # ds)) = cs"
      by (simp only: cs)
    moreover have "length (fill_cells (a # b # ds) cs) = length (fill (a # b # ds))"
      using True l by (simp add: cs fill_cells_gap fill_gap)
    moreover have "\<forall>k \<in> gaps (a # b # ds). fill_cells (a # b # ds) cs ! k = NO_PITCHES"
    proof
      fix k assume "k \<in> gaps (a # b # ds)"
      then obtain j where k: "k = Suc j" and j: "j = 0 \<or> j \<in> ?G"
        using True by (auto simp: gaps_gap)
      have f: "fill_cells (a # b # ds) cs = c # ?F"
        using True by (simp add: cs fill_cells_gap)
      from j sent have "?F ! j = NO_PITCHES"
        using r by auto
      then show "fill_cells (a # b # ds) cs ! k = NO_PITCHES"
        by (simp add: k f)
    qed
    ultimately show ?thesis by blast
  next
    case False
    let ?G = "gaps (b # ds)"
    from "1.IH"(2) [OF False len] have
      n: "nths (fill_cells (b # ds) cs') (- ?G) = cs'"
      and l: "length (fill_cells (b # ds) cs') = length (fill (b # ds))"
      and sent: "\<forall>k \<in> ?G. fill_cells (b # ds) cs' ! k = NO_PITCHES"
      by blast+
    have "nths (fill_cells (a # b # ds) cs) (- gaps (a # b # ds)) = cs"
      using False n by (simp add: cs fill_cells_next gaps_next nths_keep)
    moreover have "length (fill_cells (a # b # ds) cs) = length (fill (a # b # ds))"
      using False l by (simp add: cs fill_cells_next fill_next)
    moreover have "\<forall>k \<in> gaps (a # b # ds). fill_cells (a # b # ds) cs ! k = NO_PITCHES"
    proof
      fix k assume "k \<in> gaps (a # b # ds)"
      then obtain j where k: "k = Suc j" and j: "j \<in> ?G"
        using False by (auto simp: gaps_next)
      have f: "fill_cells (a # b # ds) cs = c # fill_cells (b # ds) cs'"
        using False by (simp add: cs fill_cells_next)
      from j sent show "fill_cells (a # b # ds) cs ! k = NO_PITCHES"
        by (simp add: k f)
    qed
    ultimately show ?thesis by blast
  qed
qed (simp_all add: nths_all)

lemma pad_dates_closed:
  assumes "map_err strptime (game_dates games) = Inr gamedays"
  shows "pad_dates strptime games pitcher_games
           = Inr (fill gamedays, snd (pad_loop 0 gamedays pitcher_games))"
proof -
  have "fst (pad_loop 0 gamedays pitcher_games) = take 0 gamedays @ fill (drop 0 gamedays)"
    by (rule pad_loop_fill) simp
  then have "pad_loop 0 gamedays pitcher_games
               = (fill gamedays, snd (pad_loop 0 gamedays pitcher_games))"
    by (simp add: prod_eq_iff)
  with assms show ?thesis
    by (simp add: pad_dates_def)
qed

lemma length_game_dates: "length (game_dates games) = length games"
  by (simp add: game_dates_def)

text \<open>
  C1. When every date string parses and every timeline is as long as the game list,
  \<^verbatim>\<open>pad_dates\<close> returns a calendar and, for the same pitchers, timelines that all have
  the length of the calendar. There is one set of gap indices for the calendar and all
  timelines: outside it the calendar is the list of game dates and each timeline is the
  input timeline; at each gap index the calendar holds the day after the slot before it
  and every timeline holds the sentinel.
\<close>

theorem pad_dates_aligned:
  assumes "\<forall>(p, timeline) \<in> set pitcher_games. length timeline = length games"
    and "map_err strptime (game_dates games) = Inr gamedays"
  shows "\<exists>dates pitcher_dates gap_slots.
           pad_dates strptime games pitcher_games = Inr (dates, pitcher_dates)
           \<and> dict_keys pitcher_dates = dict_keys pitcher_games
           \<and> (\<forall>(p, timeline) \<in> set pitcher_dates. length timeline = length dates)
           \<and> gap_slots \<subseteq> {..<length dates}
           \<and> nths dates (- gap_slots) = gamedays
           \<and> (\<forall>k \<in> gap_slots. 0 < k \<and> dates ! k = dates ! (k - 1) + 1)
           \<and> (\<forall>i < length pitcher_games.
                 nths (snd (pitcher_dates ! i)) (- gap_slots) = snd (pitcher_games ! i))
           \<and> (\<forall>(p, timeline) \<in> set pitcher_dates. \<forall>k \<in> gap_slots. timeline ! k = NO_PITCHES)"
proof -
  let ?pd = "map (\<lambda>(p, t). (p, fill_cells gamedays t)) pitcher_games"
  have len: "length gamedays = length games"
    using assms(2) map_err_length length_game_dates by fastforce
  with assms(1) have lens: "\<forall>(p, t) \<in> set pitcher_games. length t = length gamedays"
    by simp
  have "snd (pad_loop 0 gamedays pitcher_games)
          = map (\<lambda>(p, t). (p, take 0 t @ fill_cells (drop 0 gamedays) (drop 0 t))) pitcher_games"
    using lens by (intro pad_loop_cells) simp_all
  then have res: "pad_dates strptime games pitcher_games = Inr (fill gamedays, ?pd)"
    using pad_dates_closed [OF assms(2), of pitcher_games] by simp
  have keys: "dict_keys ?pd = dict_keys pitcher_games"
    by simp
  have cells: "nths (fill_cells gamedays t) (- gaps gamedays) = t
               \<and> length (fill_cells gamedays t) = length (fill gamedays)
               \<and> (\<forall>k \<in> gaps gamedays. fill_cells gamedays t ! k = NO_PITCHES)"
    if "(p, t) \<in> set pitcher_games" for p t
    using that lens by (intro fill_cells_gaps) auto
  have l: "\<forall>(p, timeline) \<in> set ?pd. length timeline = length (fill gamedays)"
    using cells by auto
  have s: "\<forall>(p, timeline) \<in> set ?pd. \<forall>k \<in> gaps gamedays. timeline ! k = NO_PITCHES"
    using cells by auto
  have n: "\<forall>i < length pitcher_games.
             nths (snd (?pd ! i)) (- gaps gamedays) = snd (pitcher_games ! i)"
  proof (intro allI impI)
    fix i assume i: "i < length pitcher_games"
    then have "(fst (pitcher_games ! i), snd (pitcher_games ! i)) \<in> set pitcher_games"
      by simp
    from cells [OF this] i show "nths (snd (?pd ! i)) (- gaps gamedays) = snd (pitcher_games ! i)"
      by (simp add: case_prod_unfold)
  qed
  from fill_gaps [of gamedays] have g1: "gaps gamedays \<subseteq> {..<length (fill gamedays)}"
    and g2: "nths (fill gamedays) (- gaps gamedays) = gamedays"
    and g3: "\<forall>k \<in> gaps gamedays. 0 < k \<and> fill gamedays ! k = fill gamedays ! (k - 1) + 1"
    by blast+
  show ?thesis
    by (intro exI [of _ "fill gamedays"] exI [of _ ?pd] exI [of _ "gaps gamedays"] conjI;
        (rule res keys l g1 g2 g3 n s))
qed

text \<open>
  C2. When the game dates are in non-decreasing order, \<^verbatim>\<open>pad_dates\<close> returns a
  calendar in which any two adjacent slots with different dates are exactly one day
  apart, whatever the size of the gaps in the input.
\<close>

theorem pad_dates_dense:
  assumes "map_err strptime (game_dates games) = Inr gamedays" and "sorted gamedays"
  shows "\<exists>dates pitcher_dates.
           pad_dates strptime games pitcher_games = Inr (dates, pitcher_dates)
           \<and> (\<forall>j. Suc j < length dates \<longrightarrow> dates ! j \<noteq> dates ! Suc j
                 \<longrightarrow> dates ! Suc j - dates ! j = 1)"
proof -
  have "successively (\<lambda>a b. b = a \<or> b = a + 1) (fill gamedays)"
    using assms(2) by (rule fill_dense)
  then have "\<forall>j. Suc j < length (fill gamedays) \<longrightarrow> fill gamedays ! j \<noteq> fill gamedays ! Suc j
                 \<longrightarrow> fill gamedays ! Suc j - fill gamedays ! j = 1"
    by (auto simp: successively_conv_nth)
  with pad_dates_closed [OF assms(1), of pitcher_games] show ?thesis
    by blast
qed










theorem pad_dates_aligned_witness:
  "pad_dates strptime_june
     [(1, ''2024-06-01'', 1), (2, ''2024-06-02'', 1), (3, ''2024-06-03'', 1),
      (4, ''2024-06-05'', 1), (5, ''2024-06-06'', 1)]
     [(11, [IntCell 12, StrCell ''-'', IntCell 7, IntCell 0, StrCell ''-'']),
      (12, [StrCell ''-'', IntCell 31, StrCell ''-'', IntCell 18, IntCell 22])]
     = Inr ([739038, 739039, 739040, 739041, 739042, 739043],
            [(11, [IntCell 12, StrCell ''-'', IntCell 7, StrCell ''-'', IntCell 0, StrCell ''-'']),
             (12, [StrCell ''-'', IntCell 31, StrCell ''-'', StrCell ''-'', IntCell 18, IntCell 22])])
   \<and> (\<exists>dates pitcher_dates gap_slots.
         pad_dates strptime_june
           [(1, ''2024-06-01'', 1), (2, ''2024-06-02'', 1), (3, ''2024-06-03'', 1),
            (4, ''2024-06-05'', 1), (5, ''2024-06-06'', 1)]
           [(11, [IntCell 12, StrCell ''-'', IntCell 7, IntCell 0, StrCell ''-'']),
            (12, [StrCell ''-'', IntCell 31, StrCell ''-'', IntCell 18, IntCell 22])]
           = Inr (dates, pitcher_dates)
         \<and> (\<forall>(p, timeline) \<in> set pitcher_dates. length timeline = length dates)
         \<and> nths dates (- gap_slots) = [739038, 739039, 739040, 739042, 739043]
         \<and> (\<forall>(p, timeline) \<in> set pitcher_dates. \<forall>k \<in> gap_slots. timeline ! k = NO_PITCHES))"
proof -
  have h1: "\<forall>(p, timeline) \<in> set
      [(11 :: pitcher, [IntCell 12, StrCell ''-'', IntCell 7, IntCell 0, StrCell ''-'']),
       (12, [StrCell ''-'', IntCell 31, StrCell ''-'', IntCell 18, IntCell 22])].
      length timeline = length
        [(1 :: int, ''2024-06-01'', 1 :: int), (2, ''2024-06-02'', 1), (3, ''2024-06-03'', 1),
         (4, ''2024-06-05'', 1), (5, ''2024-06-06'', 1)]"
    by simp
  have h2: "map_err strptime_june
      (game_dates [(1, ''2024-06-01'', 1), (2, ''2024-06-02'', 1), (3, ''2024-06-03'', 1),
         (4, ''2024-06-05'', 1), (5, ''2024-06-06'', 1)])
      = Inr [739038, 739039, 739040, 739042, 739043]"
    by (simp add: game_dates_def strptime_june_def june_2024_def)
  have e: "pad_dates strptime_june
     [(1, ''2024-06-01'', 1), (2, ''2024-06-02'', 1), (3, ''2024-06-03'', 1),
      (4, ''2024-06-05'', 1), (5, ''2024-06-06'', 1)]
     [(11, [IntCell 12, StrCell ''-'', IntCell 7, IntCell 0, StrCell ''-'']),
      (12, [StrCell ''-'', IntCell 31, StrCell ''-'', IntCell 18, IntCell 22])]
     = Inr ([739038, 739039, 739040, 739041, 739042, 739043],
            [(11, [IntCell 12, StrCell ''-'', IntCell 7, StrCell ''-'', IntCell 0, StrCell ''-'']),
             (12, [StrCell ''-'', IntCell 31, StrCell ''-'', StrCell ''-'', IntCell 18, IntCell 22])])"
    by (simp add: pad_dates_def game_dates_def strptime_june_def june_2024_def pad_loop.simps
        insert_at_def NO_PITCHES_def)
  from pad_dates_aligned [OF h1 h2]
  have "\<exists>dates pitcher_dates gap_slots.
         pad_dates strptime_june
           [(1, ''2024-06-01'', 1), (2, ''2024-06-02'', 1), (3, ''2024-06-03'', 1),
            (4, ''2024-06-05'', 1), (5, ''2024-06-06'', 1)]
           [(11, [IntCell 12, StrCell ''-'', IntCell 7, IntCell 0, StrCell ''-'']),
            (12, [StrCell ''-'', IntCell 31, StrCell ''-'', IntCell 18, IntCell 22])]
           = Inr (dates, pitcher_dates)
         \<and> (\<forall>(p, timeline) \<in> set pitcher_dates. length timeline = length dates)
         \<and> nths dates (- gap_slots) = [739038, 739039, 739040, 739042, 739043]
         \<and> (\<forall>(p, timeline) \<in> set pitcher_dates. \<forall>k \<in> gap_slots. timeline ! k = NO_PITCHES)"
    by blast
  with e show ?thesis
    by (rule conjI)
qed

theorem pad_dates_dense_witness:
  "pad_dates strptime_june
     [(1, ''2024-06-01'', 1), (2, ''2024-06-05'', 1), (3, ''2024-06-05'', 2),
      (4, ''2024-06-06'', 1)] []
     = Inr ([739038, 739039, 739040, 739041, 739042, 739042, 739043], [])
   \<and> (\<exists>dates pitcher_dates.
         pad_dates strptime_june
           [(1, ''2024-06-01'', 1), (2, ''2024-06-05'', 1), (3, ''2024-06-05'', 2),
            (4, ''2024-06-06'', 1)] []
           = Inr (dates, pitcher_dates)
         \<and> (\<forall>j. Suc j < length dates \<longrightarrow> dates ! j \<noteq> dates ! Suc j
               \<longrightarrow> dates ! Suc j - dates ! j = 1))"
proof -
  have h1: "map_err strptime_june
      (game_dates [(1, ''2024-06-01'', 1), (2, ''2024-06-05'', 1), (3, ''2024-06-05'', 2),
         (4, ''2024-06-06'', 1)])
      = Inr [739038, 739042, 739042, 739043]"
    by (simp add: game_dates_def strptime_june_def june_2024_def)
  have h2: "sorted [739038 :: date, 739042, 739042, 739043]"
    by simp
  have e: "pad_dates strptime_june
     [(1, ''2024-06-01'', 1), (2, ''2024-06-05'', 1), (3, ''2024-06-05'', 2),
      (4, ''2024-06-06'', 1)] []
     = Inr ([739038, 739039, 739040, 739041, 739042, 739042, 739043], [])"
    by (simp add: pad_dates_def game_dates_def strptime_june_def june_2024_def pad_loop.simps
        insert_at_def)
  from e pad_dates_dense [OF h1 h2, of "[]"] show ?thesis
    by (rule conjI)
qed

end
